theory Spec2Isabelle
  imports
    Main
    "HOL-Library.Sublist"
    "HOL-Library.Multiset"
    "HOL-Library.Finite_Map"
begin

unbundle bit_operations_syntax

section \<open>The A2UI bundle script: a fingerprint-gated build trigger\<close>

text \<open>
  This theory embeds \<^verbatim>\<open>scripts/bundle-a2ui.ts\<close>. The script enumerates four
  input roots, hashes the files it finds, compares the digest with the one stored by
  the last successful run, and only when they differ (or the bundle is missing) runs
  two external build stages and stores the new digest.

  Conventions of the embedding.
  \<^item> A JavaScript string is modelled by the list of its UTF-8 bytes (\<^typ>\<open>string\<close>);
    a \<^verbatim>\<open>Buffer\<close> is a list of bytes as well. \<^verbatim>\<open>hash.update(s)\<close> feeds exactly
    these bytes, and splitting or joining at an ASCII separator acts on the bytes as
    it acts on the characters.
  \<^item> What the script reads from its host (platform, environment, the location of the
    script, the locale's collation, the external processes) is a record \<open>host\<close>.
  \<^item> The file system is a finite map from absolute paths to nodes; an exception is
    a value \<open>Inl e\<close> of a sum type.
  \<^item> The functions of the platform that the script calls are written out where their
    result matters: the path functions, \<^verbatim>\<open>trim\<close>, the stable sort, and SHA-256
    after FIPS 180-4. The comparison \<^verbatim>\<open>localeCompare\<close> depends on the locale and is
    a field of the host.
\<close>

subsection \<open>Paths\<close>

text \<open>\<^verbatim>\<open>String.prototype.split(sep)\<close> for a one-character separator, and
  \<^verbatim>\<open>Array.prototype.join\<close>. Splitting never yields the empty array.\<close>

fun split :: "char \<Rightarrow> string \<Rightarrow> string list" where
  "split sep [] = [[]]"
| "split sep (c # cs) =
     (if c = sep then [] # split sep cs
      else (case split sep cs of
              [] \<Rightarrow> [[c]]
            | w # ws \<Rightarrow> (c # w) # ws))"

fun join :: "string \<Rightarrow> string list \<Rightarrow> string" where
  "join s [] = []"
| "join s [w] = w"
| "join s (w # v # ws) = w @ s @ join s (v # ws)"

text \<open>\<^verbatim>\<open>path.join(a, b)\<close> where \<open>a\<close> is a normalized path without a trailing
  separator and \<open>b\<close> is a single name (as \<^verbatim>\<open>readdir\<close> returns them, or a literal
  of the script): the two parts with the platform separator between them.\<close>

definition path_join :: "char \<Rightarrow> string \<Rightarrow> string \<Rightarrow> string" where
  "path_join sep a b = a @ sep # b"

definition path_join_all :: "char \<Rightarrow> string \<Rightarrow> string list \<Rightarrow> string" where
  "path_join_all sep a bs = foldl (path_join sep) a bs"

text \<open>\<^verbatim>\<open>path.relative(from, to)\<close> for absolute normalized paths: the segments the
  two paths share are dropped, every remaining segment of \<open>from\<close> becomes \<^verbatim>\<open>..\<close>,
  and the remaining segments of \<open>to\<close> follow. (On Windows the shared segments are
  found ignoring case; the paths of the script all extend the same \<open>repoRoot\<close>
  string, where the two readings agree.)\<close>

definition segments :: "char \<Rightarrow> string \<Rightarrow> string list" where
  "segments sep p = filter (\<lambda>s. s \<noteq> []) (split sep p)"

definition relative :: "char \<Rightarrow> string \<Rightarrow> string \<Rightarrow> string" where
  "relative sep from to =
     (let fromParts = segments sep from;
          toParts = segments sep to;
          n = length (longest_common_prefix fromParts toParts)
      in join [sep] (replicate (length fromParts - n) ''..'' @ drop n toParts))"

subsection \<open>The host\<close>

datatype spawn_result =
    SpawnFailed string          \<comment> \<open>\<^verbatim>\<open>res.error\<close> is set; the string is \<^verbatim>\<open>String(res.error)\<close>\<close>
  | Exited "int option"         \<comment> \<open>\<^verbatim>\<open>res.status\<close>; \<open>None\<close> is \<^verbatim>\<open>null\<close> (killed by a signal)\<close>

text \<open>What \<^verbatim>\<open>fs.stat\<close> finds at a path: a directory with the names \<^verbatim>\<open>readdir\<close>
  lists (in the order it lists them), or anything else, with the bytes read from it.\<close>

datatype node = File string | Dir "string list"

type_synonym filesystem = "(string, node) fmap"

record host =
  platform :: string                               \<comment> \<open>\<^verbatim>\<open>process.platform\<close>\<close>
  repoRoot :: string                               \<comment> \<open>the parent of the script's directory\<close>
  localeCompare :: "string \<Rightarrow> string \<Rightarrow> int"       \<comment> \<open>\<^verbatim>\<open>a.localeCompare(b)\<close> in the host's locale\<close>
  npm_execpath :: "string option"                  \<comment> \<open>\<^verbatim>\<open>process.env.npm_execpath\<close>\<close>
  execPath :: string                               \<comment> \<open>\<^verbatim>\<open>process.execPath\<close>\<close>
  spawnSync :: "string \<Rightarrow> string list \<Rightarrow> filesystem \<Rightarrow> spawn_result \<times> filesystem"
    \<comment> \<open>runs a command to its end; the process may change the file system\<close>

text \<open>\<^verbatim>\<open>path.sep\<close>: a backslash on Windows, a slash elsewhere.\<close>

definition sep :: "host \<Rightarrow> char" where
  "sep h = (if platform h = ''win32'' then CHR 0x5C else CHR ''/'')"

definition hashFile :: "host \<Rightarrow> string" where
  "hashFile h = path_join_all (sep h) (repoRoot h) [''src'', ''canvas-host'', ''a2ui'', ''.bundle.hash'']"

definition outputFile :: "host \<Rightarrow> string" where
  "outputFile h = path_join_all (sep h) (repoRoot h) [''src'', ''canvas-host'', ''a2ui'', ''a2ui.bundle.js'']"

definition a2uiRendererDir :: "host \<Rightarrow> string" where
  "a2uiRendererDir h = path_join_all (sep h) (repoRoot h) [''vendor'', ''a2ui'', ''renderers'', ''lit'']"

definition a2uiAppDir :: "host \<Rightarrow> string" where
  "a2uiAppDir h =
     path_join_all (sep h) (repoRoot h) [''apps'', ''shared'', ''OpenClawKit'', ''Tools'', ''CanvasA2UI'']"

definition inputPaths :: "host \<Rightarrow> string list" where
  "inputPaths h =
     [path_join (sep h) (repoRoot h) ''package.json'',
      path_join (sep h) (repoRoot h) ''pnpm-lock.yaml'',
      a2uiRendererDir h,
      a2uiAppDir h]"

subsection \<open>The file system\<close>

datatype error =
    ENOENT string string        \<comment> \<open>system call and path: no such file or directory\<close>
  | EISDIR string string        \<comment> \<open>system call and path: the path is a directory\<close>
  | ENOTDIR string string       \<comment> \<open>system call and path: a parent is not a directory\<close>
  | SpawnError string           \<comment> \<open>the \<^verbatim>\<open>res.error\<close> of \<^verbatim>\<open>spawnSync\<close>, rethrown\<close>
  | CommandFailed "string list" \<comment> \<open>\<^verbatim>\<open>new Error(`Command failed: pnpm ${args.join(" ")}`)\<close>\<close>

text \<open>A path that the file system does not store is reported as absent (\<^verbatim>\<open>ENOENT\<close>).
  The platform reports \<^verbatim>\<open>ENOTDIR\<close> instead when a proper ancestor of the path is a
  regular file; \<^verbatim>\<open>writeFile\<close> below makes the distinction for the parent only. The
  two errors differ in their text alone: the script treats every error alike.\<close>

text \<open>\<^verbatim>\<open>exists(p)\<close>: whether \<^verbatim>\<open>fs.stat(p)\<close> succeeds.\<close>

definition exists :: "filesystem \<Rightarrow> string \<Rightarrow> bool" where
  "exists fs p = (case fmlookup fs p of None \<Rightarrow> False | Some _ \<Rightarrow> True)"

text \<open>\<^verbatim>\<open>fs.readFile(p)\<close>.\<close>

definition readFile :: "filesystem \<Rightarrow> string \<Rightarrow> error + string" where
  "readFile fs p =
     (case fmlookup fs p of
        None \<Rightarrow> Inl (ENOENT ''open'' p)
      | Some (Dir _) \<Rightarrow> Inl (EISDIR ''read'' p)
      | Some (File bytes) \<Rightarrow> Inr bytes)"

text \<open>The directory part and the last segment of a path.\<close>

definition dirname :: "char \<Rightarrow> string \<Rightarrow> string" where
  "dirname s p = rev (drop 1 (dropWhile (\<lambda>c. c \<noteq> s) (rev p)))"

definition basename :: "char \<Rightarrow> string \<Rightarrow> string" where
  "basename s p = rev (takeWhile (\<lambda>c. c \<noteq> s) (rev p))"

text \<open>\<^verbatim>\<open>fs.writeFile(p, data)\<close>: replaces a file, or creates it in an existing
  directory (whose listing gains the name).\<close>

definition writeFile :: "char \<Rightarrow> filesystem \<Rightarrow> string \<Rightarrow> string \<Rightarrow> error + filesystem" where
  "writeFile s fs p bytes =
     (case fmlookup fs p of
        Some (Dir _) \<Rightarrow> Inl (EISDIR ''open'' p)
      | Some (File _) \<Rightarrow> Inr (fmupd p (File bytes) fs)
      | None \<Rightarrow>
          (case fmlookup fs (dirname s p) of
             None \<Rightarrow> Inl (ENOENT ''open'' p)
           | Some (File _) \<Rightarrow> Inl (ENOTDIR ''open'' p)
           | Some (Dir names) \<Rightarrow>
               Inr (fmupd p (File bytes) (fmupd (dirname s p) (Dir (names @ [basename s p])) fs))))"

subsection \<open>Enumeration: \<^verbatim>\<open>walk\<close>\<close>

text \<open>The recursion of \<^verbatim>\<open>walk\<close> descends along paths of the finite file system:
  each call extends the path, so the number of stored paths below it decreases.\<close>

definition below :: "filesystem \<Rightarrow> string \<Rightarrow> string set" where
  "below fs p = {q \<in> fmdom' fs. strict_prefix p q}"

definition at_or_below :: "filesystem \<Rightarrow> string \<Rightarrow> string set" where
  "at_or_below fs p = {q \<in> fmdom' fs. prefix p q}"

lemma finite_below [simp]: "finite (below fs p)" "finite (at_or_below fs p)"
  by (simp_all add: below_def at_or_below_def)

lemma below_join_subset: "at_or_below fs (path_join s p e) \<subseteq> below fs p"
  by (auto simp: below_def at_or_below_def path_join_def strict_prefix_def prefix_def)

lemma card_below_join: "card (at_or_below fs (path_join s p e)) \<le> card (below fs p)"
  by (rule card_mono) (simp_all add: below_join_subset)

lemma card_below_less:
  assumes "fmlookup fs p = Some n"
  shows "card (below fs p) < card (at_or_below fs p)"
proof (rule psubset_card_mono)
  show "finite (at_or_below fs p)" by simp
  have "p \<in> at_or_below fs p"
    using assms by (simp add: at_or_below_def fmdom'I)
  moreover have "p \<notin> below fs p"
    by (simp add: below_def)
  moreover have "below fs p \<subseteq> at_or_below fs p"
    by (auto simp: below_def at_or_below_def strict_prefix_def)
  ultimately show "below fs p \<subset> at_or_below fs p" by blast
qed

function walk :: "char \<Rightarrow> filesystem \<Rightarrow> string \<Rightarrow> string list \<Rightarrow> error + string list"
  and walk_entries ::
    "char \<Rightarrow> filesystem \<Rightarrow> string \<Rightarrow> string list \<Rightarrow> string list \<Rightarrow> error + string list"
where
  "walk s fs entryPath out =
     (case fmlookup fs entryPath of
        None \<Rightarrow> Inl (ENOENT ''stat'' entryPath)
      | Some (Dir entries) \<Rightarrow> walk_entries s fs entryPath entries out
      | Some (File _) \<Rightarrow> Inr (out @ [entryPath]))"
| "walk_entries s fs entryPath [] out = Inr out"
| "walk_entries s fs entryPath (entry # entries) out =
     (case walk s fs (path_join s entryPath entry) out of
        Inl e \<Rightarrow> Inl e
      | Inr out' \<Rightarrow> walk_entries s fs entryPath entries out')"
  by pat_completeness auto
termination
proof (relation "measures
    [\<lambda>x. case x of
            Inl (s, fs, p, out) \<Rightarrow> card (at_or_below fs p)
          | Inr (s, fs, p, es, out) \<Rightarrow> card (below fs p),
     \<lambda>x. case x of
            Inl (s, fs, p, out) \<Rightarrow> 0
          | Inr (s, fs, p, es, out) \<Rightarrow> Suc (length es)]", goal_cases)
  case 1
  show ?case by simp
next
  case (2 s fs entryPath out x2 x1)
  then show ?case by (simp add: card_below_less)
next
  case (3 s fs entryPath entry entries out)
  have "card (at_or_below fs (path_join s entryPath entry)) \<le> card (below fs entryPath)"
    by (rule card_below_join)
  then show ?case by auto
next
  case (4 s fs entryPath entry entries out x2)
  then show ?case by simp
qed

declare walk.simps [simp del]

text \<open>The loop of \<^verbatim>\<open>computeHash\<close> over the input roots.\<close>

fun walk_inputs :: "char \<Rightarrow> filesystem \<Rightarrow> string list \<Rightarrow> string list \<Rightarrow> error + string list" where
  "walk_inputs s fs [] out = Inr out"
| "walk_inputs s fs (input # inputs) out =
     (case walk s fs input out of
        Inl e \<Rightarrow> Inl e
      | Inr out' \<Rightarrow> walk_inputs s fs inputs out')"

subsection \<open>Normalizing and sorting\<close>

definition normalize :: "host \<Rightarrow> string \<Rightarrow> string" where
  "normalize h p = join ''/'' (split (sep h) p)"

text \<open>\<^verbatim>\<open>Array.prototype.sort(compare)\<close> is a stable sort: elements that compare
  equal keep their order. For a consistent comparator every stable sort returns the
  same array; insertion from the right is one.\<close>

fun insort_cmp :: "('a \<Rightarrow> 'a \<Rightarrow> int) \<Rightarrow> 'a \<Rightarrow> 'a list \<Rightarrow> 'a list" where
  "insort_cmp cmp x [] = [x]"
| "insort_cmp cmp x (y # ys) =
     (if cmp x y \<le> 0 then x # y # ys else y # insort_cmp cmp x ys)"

definition sort_cmp :: "('a \<Rightarrow> 'a \<Rightarrow> int) \<Rightarrow> 'a list \<Rightarrow> 'a list" where
  "sort_cmp cmp xs = foldr (insort_cmp cmp) xs []"

text \<open>The comparison function of line 51, and the sort with it.\<close>

definition compareFiles :: "host \<Rightarrow> string \<Rightarrow> string \<Rightarrow> int" where
  "compareFiles h a b = localeCompare h (normalize h a) (normalize h b)"

definition sortFiles :: "host \<Rightarrow> string list \<Rightarrow> string list" where
  "sortFiles h files = sort_cmp (compareFiles h) files"

subsection \<open>SHA-256 (FIPS 180-4), the digest of \<^verbatim>\<open>createHash("sha256")\<close>\<close>

text \<open>A 32-bit word is a natural number below \<open>2 ^ 32\<close>; additions wrap around.\<close>

definition add32 :: "nat \<Rightarrow> nat \<Rightarrow> nat" where
  "add32 a b = (a + b) mod 4294967296"

definition sum32 :: "nat list \<Rightarrow> nat" where
  "sum32 xs = sum_list xs mod 4294967296"

definition rotr :: "nat \<Rightarrow> nat \<Rightarrow> nat" where
  "rotr n x = x div 2 ^ n + (x mod 2 ^ n) * 2 ^ (32 - n)"

definition shr :: "nat \<Rightarrow> nat \<Rightarrow> nat" where
  "shr n x = x div 2 ^ n"

definition not32 :: "nat \<Rightarrow> nat" where
  "not32 x = 4294967295 - x"

definition K256 :: "nat list" where
  "K256 = [
   0x428A2F98, 0x71374491, 0xB5C0FBCF, 0xE9B5DBA5, 0x3956C25B, 0x59F111F1, 0x923F82A4, 0xAB1C5ED5,
   0xD807AA98, 0x12835B01, 0x243185BE, 0x550C7DC3, 0x72BE5D74, 0x80DEB1FE, 0x9BDC06A7, 0xC19BF174,
   0xE49B69C1, 0xEFBE4786, 0x0FC19DC6, 0x240CA1CC, 0x2DE92C6F, 0x4A7484AA, 0x5CB0A9DC, 0x76F988DA,
   0x983E5152, 0xA831C66D, 0xB00327C8, 0xBF597FC7, 0xC6E00BF3, 0xD5A79147, 0x06CA6351, 0x14292967,
   0x27B70A85, 0x2E1B2138, 0x4D2C6DFC, 0x53380D13, 0x650A7354, 0x766A0ABB, 0x81C2C92E, 0x92722C85,
   0xA2BFE8A1, 0xA81A664B, 0xC24B8B70, 0xC76C51A3, 0xD192E819, 0xD6990624, 0xF40E3585, 0x106AA070,
   0x19A4C116, 0x1E376C08, 0x2748774C, 0x34B0BCB5, 0x391C0CB3, 0x4ED8AA4A, 0x5B9CCA4F, 0x682E6FF3,
   0x748F82EE, 0x78A5636F, 0x84C87814, 0x8CC70208, 0x90BEFFFA, 0xA4506CEB, 0xBEF9A3F7, 0xC67178F2]"

definition H256 :: "nat list" where
  "H256 = [0x6A09E667, 0xBB67AE85, 0x3C6EF372, 0xA54FF53A,
           0x510E527F, 0x9B05688C, 0x1F83D9AB, 0x5BE0CD19]"

definition ssig0 :: "nat \<Rightarrow> nat" where
  "ssig0 x = rotr 7 x XOR rotr 18 x XOR shr 3 x"

definition ssig1 :: "nat \<Rightarrow> nat" where
  "ssig1 x = rotr 17 x XOR rotr 19 x XOR shr 10 x"

definition bsig0 :: "nat \<Rightarrow> nat" where
  "bsig0 x = rotr 2 x XOR rotr 13 x XOR rotr 22 x"

definition bsig1 :: "nat \<Rightarrow> nat" where
  "bsig1 x = rotr 6 x XOR rotr 11 x XOR rotr 25 x"

definition ch :: "nat \<Rightarrow> nat \<Rightarrow> nat \<Rightarrow> nat" where
  "ch x y z = (x AND y) XOR (not32 x AND z)"

definition maj :: "nat \<Rightarrow> nat \<Rightarrow> nat \<Rightarrow> nat" where
  "maj x y z = (x AND y) XOR (x AND z) XOR (y AND z)"

text \<open>One round per constant. The second argument is the window of the last sixteen
  words of the message schedule, the third the eight working variables.\<close>

fun rounds :: "nat list \<Rightarrow> nat list \<Rightarrow> nat list \<Rightarrow> nat list" where
  "rounds (k # ks) [w0, w1, w2, w3, w4, w5, w6, w7, w8, w9, w10, w11, w12, w13, w14, w15]
          [a, b, c, d, e, f, g, h] =
     rounds ks
       [w1, w2, w3, w4, w5, w6, w7, w8, w9, w10, w11, w12, w13, w14, w15,
        sum32 [ssig1 w14, w9, ssig0 w1, w0]]
       [sum32 [h, bsig1 e, ch e f g, k, w0, bsig0 a, maj a b c], a, b, c,
        sum32 [d, h, bsig1 e, ch e f g, k, w0], e, f, g]"
| "rounds ks ws st = st"

text \<open>Sixteen big-endian words from the sixty-four bytes of a block.\<close>

fun be32 :: "nat list \<Rightarrow> nat list" where
  "be32 (a # b # c # d # r) = (a * 16777216 + b * 65536 + c * 256 + d) # be32 r"
| "be32 r = []"

definition compress :: "nat list \<Rightarrow> nat list \<Rightarrow> nat list" where
  "compress st blk = map2 add32 st (rounds K256 (be32 blk) st)"

function blocks :: "nat list \<Rightarrow> nat list \<Rightarrow> nat list" where
  "blocks st m = (if length m < 64 then st else blocks (compress st (take 64 m)) (drop 64 m))"
  by pat_completeness auto
termination
  by (relation "measure (\<lambda>(st, m). length m)") auto

declare blocks.simps [simp del]

definition be64 :: "nat \<Rightarrow> nat list" where
  "be64 n = map (\<lambda>i. n div 2 ^ i mod 256) [56, 48, 40, 32, 24, 16, 8, 0]"

text \<open>Padding: the byte \<open>0x80\<close>, zero bytes up to 56 modulo 64, and the length of the
  message in bits as eight bytes.\<close>

definition pad :: "nat list \<Rightarrow> nat list" where
  "pad m = m @ [0x80] @ replicate ((119 - length m mod 64) mod 64) 0 @ be64 (8 * length m)"

definition sha256 :: "string \<Rightarrow> nat list" where
  "sha256 m = blocks H256 (pad (map of_char m))"

definition hexdigit :: "nat \<Rightarrow> char" where
  "hexdigit n = ''0123456789abcdef'' ! n"

definition hex32 :: "nat \<Rightarrow> string" where
  "hex32 w = map (\<lambda>i. hexdigit (w div 2 ^ i mod 16)) [28, 24, 20, 16, 12, 8, 4, 0]"

text \<open>\<^verbatim>\<open>hash.digest("hex")\<close> of a hash object that was fed the bytes \<open>m\<close>.\<close>

definition sha256_hex :: "string \<Rightarrow> string" where
  "sha256_hex m = concat (map hex32 (sha256 m))"

subsection \<open>The fingerprint: \<^verbatim>\<open>computeHash\<close>\<close>

text \<open>The loop of lines 54 to 59. The hash object is the list of the bytes fed to
  it so far.\<close>

fun hashLoop :: "host \<Rightarrow> filesystem \<Rightarrow> string list \<Rightarrow> string \<Rightarrow> error + string" where
  "hashLoop h fs [] hash = Inr hash"
| "hashLoop h fs (filePath # files) hash =
     (case readFile fs filePath of
        Inl e \<Rightarrow> Inl e
      | Inr bytes \<Rightarrow>
          hashLoop h fs files
            (hash @ normalize h (relative (sep h) (repoRoot h) filePath) @ [CHR 0x00]
                  @ bytes @ [CHR 0x00]))"

text \<open>Lines 51 to 61: the sort and hash steps, on the enumerated list.\<close>

definition hashFiles :: "host \<Rightarrow> filesystem \<Rightarrow> string list \<Rightarrow> error + string" where
  "hashFiles h fs files =
     (case hashLoop h fs (sortFiles h files) [] of
        Inl e \<Rightarrow> Inl e
      | Inr hash \<Rightarrow> Inr (sha256_hex hash))"

definition computeHash :: "host \<Rightarrow> filesystem \<Rightarrow> error + string" where
  "computeHash h fs =
     (case walk_inputs (sep h) fs (inputPaths h) [] of
        Inl e \<Rightarrow> Inl e
      | Inr files \<Rightarrow> hashFiles h fs files)"

subsection \<open>The cache record\<close>

text \<open>The white space and line terminators that \<^verbatim>\<open>String.prototype.trim\<close> removes,
  each as its UTF-8 bytes: U+0009 to U+000D, U+0020, U+00A0, U+1680, U+2000 to U+200A,
  U+2028, U+2029, U+202F, U+205F, U+3000 and U+FEFF.\<close>

definition whitespace :: "string list" where
  "whitespace =
     [[CHR 0x09], [CHR 0x0A], [CHR 0x0B], [CHR 0x0C], [CHR 0x0D], [CHR 0x20],
      [CHR 0xC2, CHR 0xA0],
      [CHR 0xE1, CHR 0x9A, CHR 0x80],
      [CHR 0xE2, CHR 0x80, CHR 0x80], [CHR 0xE2, CHR 0x80, CHR 0x81],
      [CHR 0xE2, CHR 0x80, CHR 0x82], [CHR 0xE2, CHR 0x80, CHR 0x83],
      [CHR 0xE2, CHR 0x80, CHR 0x84], [CHR 0xE2, CHR 0x80, CHR 0x85],
      [CHR 0xE2, CHR 0x80, CHR 0x86], [CHR 0xE2, CHR 0x80, CHR 0x87],
      [CHR 0xE2, CHR 0x80, CHR 0x88], [CHR 0xE2, CHR 0x80, CHR 0x89],
      [CHR 0xE2, CHR 0x80, CHR 0x8A],
      [CHR 0xE2, CHR 0x80, CHR 0xA8], [CHR 0xE2, CHR 0x80, CHR 0xA9],
      [CHR 0xE2, CHR 0x80, CHR 0xAF],
      [CHR 0xE2, CHR 0x81, CHR 0x9F],
      [CHR 0xE3, CHR 0x80, CHR 0x80],
      [CHR 0xEF, CHR 0xBB, CHR 0xBF]]"

lemma whitespace_nonempty: "w \<in> set whitespace \<Longrightarrow> w \<noteq> []"
  by (auto simp: whitespace_def)

function trimStart :: "string \<Rightarrow> string" where
  "trimStart s =
     (case find (\<lambda>w. prefix w s) whitespace of
        None \<Rightarrow> s
      | Some w \<Rightarrow> trimStart (drop (length w) s))"
  by pat_completeness auto
termination
proof (relation "measure length", goal_cases)
  case 1
  show ?case by simp
next
  case (2 s w)
  then have "w \<in> set whitespace" and "prefix w s"
    by (auto simp: find_Some_iff)
  then have "w \<noteq> []" and "length w \<le> length s"
    by (auto simp: whitespace_nonempty prefix_length_le)
  then show ?case by (cases w) auto
qed

function trimEnd :: "string \<Rightarrow> string" where
  "trimEnd s =
     (case find (\<lambda>w. suffix w s) whitespace of
        None \<Rightarrow> s
      | Some w \<Rightarrow> trimEnd (take (length s - length w) s))"
  by pat_completeness auto
termination
proof (relation "measure length", goal_cases)
  case 1
  show ?case by simp
next
  case (2 s w)
  then have "w \<in> set whitespace" and "suffix w s"
    by (auto simp: find_Some_iff)
  then have "w \<noteq> []" and "length w \<le> length s"
    by (auto simp: whitespace_nonempty suffix_length_le)
  then show ?case by (cases w) auto
qed

declare trimStart.simps [simp del] trimEnd.simps [simp del]

definition trim :: "string \<Rightarrow> string" where
  "trim s = trimEnd (trimStart s)"

text \<open>\<^verbatim>\<open>fs.readFile(p, "utf8")\<close>: the bytes of the file, read as a string. (Bytes that
  are not UTF-8 are replaced by U+FFFD when Node decodes them; a cache record with such
  bytes differs from every hexadecimal digest, here as there.)\<close>

definition readFile_utf8 :: "filesystem \<Rightarrow> string \<Rightarrow> error + string" where
  "readFile_utf8 fs p = readFile fs p"

text \<open>Lines 94 and 95: the stored fingerprint, \<open>None\<close> when there is no cache file.\<close>

definition readCache :: "host \<Rightarrow> filesystem \<Rightarrow> error + string option" where
  "readCache h fs =
     (if exists fs (hashFile h)
      then (case readFile_utf8 fs (hashFile h) of
              Inl e \<Rightarrow> Inl e
            | Inr text \<Rightarrow> Inr (Some (trim text)))
      else Inr None)"

text \<open>Line 105: the fingerprint and a newline.\<close>

definition writeCache :: "host \<Rightarrow> filesystem \<Rightarrow> string \<Rightarrow> error + filesystem" where
  "writeCache h fs currentHash = writeFile (sep h) fs (hashFile h) (currentHash @ [CHR 0x0A])"

subsection \<open>The external stages: \<^verbatim>\<open>runPnpm\<close>\<close>

text \<open>\<^verbatim>\<open>toLowerCase\<close> on the ASCII letters, which is all that decides whether the
  result includes \<^verbatim>\<open>pnpm\<close>; and \<^verbatim>\<open>String.prototype.includes\<close>.\<close>

definition toLowerCase :: "string \<Rightarrow> string" where
  "toLowerCase s =
     map (\<lambda>c. if 0x41 \<le> (of_char c :: nat) \<and> (of_char c :: nat) \<le> 0x5A
               then char_of (of_char c + (0x20 :: nat)) else c) s"

fun str_includes :: "string \<Rightarrow> string \<Rightarrow> bool" where
  "str_includes needle [] = (needle = [])"
| "str_includes needle (c # cs) = (prefix needle (c # cs) \<or> str_includes needle cs)"

text \<open>What a run leaves behind: the file system, the external commands it started or
  tried to start (in order), and the lines it printed.\<close>

record world =
  fsys :: filesystem
  spawned :: "(string \<times> string list) list"
  stdout :: "string list"
  stderr :: "string list"

definition isProbablyPnpmExecPath :: "host \<Rightarrow> bool" where
  "isProbablyPnpmExecPath h =
     (case npm_execpath h of
        None \<Rightarrow> False
      | Some npmExecPath \<Rightarrow> length npmExecPath > 0 \<and> str_includes ''pnpm'' (toLowerCase npmExecPath))"

definition command :: "host \<Rightarrow> string" where
  "command h =
     (if isProbablyPnpmExecPath h then execPath h
      else if platform h = ''win32'' then ''pnpm.cmd'' else ''pnpm'')"

definition fullArgs :: "host \<Rightarrow> string list \<Rightarrow> string list" where
  "fullArgs h args =
     (case npm_execpath h of
        None \<Rightarrow> args
      | Some npmExecPath \<Rightarrow> if isProbablyPnpmExecPath h then npmExecPath # args else args)"

definition runPnpm :: "host \<Rightarrow> string list \<Rightarrow> world \<Rightarrow> (error + unit) \<times> world" where
  "runPnpm h args w =
     (case spawnSync h (command h) (fullArgs h args) (fsys w) of
        (res, fs') \<Rightarrow>
          (let w' = w\<lparr>fsys := fs', spawned := spawned w @ [(command h, fullArgs h args)]\<rparr>
           in case res of
                SpawnFailed err \<Rightarrow> (Inl (SpawnError err), w')
              | Exited status \<Rightarrow>
                  if status \<noteq> Some 0 then (Inl (CommandFailed args), w')
                  else (Inr (), w')))"

subsection \<open>The run: \<^verbatim>\<open>main\<close> and the entry point\<close>

definition tscArgs :: "host \<Rightarrow> string list" where
  "tscArgs h =
     [''-s'', ''exec'', ''tsc'', ''-p'', path_join (sep h) (a2uiRendererDir h) ''tsconfig.json'']"

definition rolldownArgs :: "host \<Rightarrow> string list" where
  "rolldownArgs h =
     [''-s'', ''exec'', ''rolldown'', ''-c'', path_join (sep h) (a2uiAppDir h) ''rolldown.config.mjs'']"

definition console_log :: "string \<Rightarrow> world \<Rightarrow> world" where
  "console_log line w = w\<lparr>stdout := stdout w @ [line]\<rparr>"

definition console_error :: "string \<Rightarrow> world \<Rightarrow> world" where
  "console_error line w = w\<lparr>stderr := stderr w @ [line]\<rparr>"

text \<open>Lines 102 to 105, reached when the bundle is not up to date.\<close>

definition rebuild :: "host \<Rightarrow> string \<Rightarrow> world \<Rightarrow> (error + unit) \<times> world" where
  "rebuild h currentHash w =
     (case runPnpm h (tscArgs h) w of
        (Inl e, w1) \<Rightarrow> (Inl e, w1)
      | (Inr u, w1) \<Rightarrow>
          (case runPnpm h (rolldownArgs h) w1 of
             (Inl e, w2) \<Rightarrow> (Inl e, w2)
           | (Inr u, w2) \<Rightarrow>
               (case writeCache h (fsys w2) currentHash of
                  Inl e \<Rightarrow> (Inl e, w2)
                | Inr fs' \<Rightarrow> (Inr (), w2\<lparr>fsys := fs'\<rparr>))))"

definition main :: "host \<Rightarrow> world \<Rightarrow> (error + unit) \<times> world" where
  "main h w =
     (if \<not> exists (fsys w) (a2uiRendererDir h) \<or> \<not> exists (fsys w) (a2uiAppDir h)
      then (Inr (), console_log ''A2UI sources missing; keeping prebuilt bundle.'' w)
      else
        (case computeHash h (fsys w) of
           Inl e \<Rightarrow> (Inl e, w)
         | Inr currentHash \<Rightarrow>
             (case readCache h (fsys w) of
                Inl e \<Rightarrow> (Inl e, w)
              | Inr previous \<Rightarrow>
                  if previous = Some currentHash \<and> exists (fsys w) (outputFile h)
                  then (Inr (), console_log ''A2UI bundle up to date; skipping.'' w)
                  else rebuild h currentHash w)))"

text \<open>\<^verbatim>\<open>String(err)\<close> for the errors a run can end with.\<close>

fun error_string :: "error \<Rightarrow> string" where
  "error_string (ENOENT syscall p) =
     ''Error: ENOENT: no such file or directory, '' @ syscall @ '' '' @ [CHR 0x27] @ p @ [CHR 0x27]"
| "error_string (EISDIR syscall p) =
     ''Error: EISDIR: illegal operation on a directory, '' @ syscall
       @ (if syscall = ''read'' then [] else '' '' @ [CHR 0x27] @ p @ [CHR 0x27])"
| "error_string (ENOTDIR syscall p) =
     ''Error: ENOTDIR: not a directory, '' @ syscall @ '' '' @ [CHR 0x27] @ p @ [CHR 0x27]"
| "error_string (SpawnError err) = err"
| "error_string (CommandFailed args) = ''Error: Command failed: pnpm '' @ join '' '' args"

text \<open>Lines 108 to 115, when the script is the program that was started: the exit
  code and what the run leaves behind.\<close>

definition run :: "host \<Rightarrow> world \<Rightarrow> int \<times> world" where
  "run h w =
     (case main h w of
        (Inr u, w') \<Rightarrow> (0, w')
      | (Inl err, w') \<Rightarrow>
          (1, console_error (error_string err)
                (console_error ''If this persists, verify pnpm deps and try again.''
                   (console_error ''A2UI bundling failed. Re-run with: pnpm canvas:a2ui:bundle'' w'))))"

subsection \<open>Notions used in the statements\<close>

text \<open>A comparator is consistent on a set when it orders the set as ECMA-262 demands of
  a comparison function: the set falls into classes of elements that compare equal,
  and the classes are totally ordered. It is tie-free when no two distinct elements
  compare equal.\<close>

definition consistent_on :: "('a \<Rightarrow> 'a \<Rightarrow> int) \<Rightarrow> 'a set \<Rightarrow> bool" where
  "consistent_on cmp S \<longleftrightarrow>
     (\<forall>a\<in>S. \<forall>b\<in>S. (cmp a b < 0) = (0 < cmp b a)) \<and>
     (\<forall>a\<in>S. \<forall>b\<in>S. \<forall>c\<in>S. cmp a b \<le> 0 \<and> cmp b c \<le> 0 \<longrightarrow> cmp a c \<le> 0)"

definition tie_free_on :: "('a \<Rightarrow> 'a \<Rightarrow> int) \<Rightarrow> 'a set \<Rightarrow> bool" where
  "tie_free_on cmp S \<longleftrightarrow> (\<forall>a\<in>S. \<forall>b\<in>S. cmp a b = 0 \<longrightarrow> a = b)"

text \<open>The bytes of a regular file, the key under which \<^verbatim>\<open>computeHash\<close> hashes a file
  (its normalized path relative to the repository), and the bytes it feeds to the hash
  for one file.\<close>

definition contents :: "filesystem \<Rightarrow> string \<Rightarrow> string" where
  "contents fs p = (case fmlookup fs p of Some (File bytes) \<Rightarrow> bytes | _ \<Rightarrow> [])"

definition regular :: "filesystem \<Rightarrow> string \<Rightarrow> bool" where
  "regular fs p = (case fmlookup fs p of Some (File bytes) \<Rightarrow> True | _ \<Rightarrow> False)"

definition key :: "host \<Rightarrow> string \<Rightarrow> string" where
  "key h filePath = normalize h (relative (sep h) (repoRoot h) filePath)"

definition entry :: "host \<Rightarrow> filesystem \<Rightarrow> string \<Rightarrow> string" where
  "entry h fs filePath = key h filePath @ [CHR 0x00] @ contents fs filePath @ [CHR 0x00]"

text \<open>A string is free of white space when none of the white space characters occurs
  in it.\<close>

definition whitespace_free :: "string \<Rightarrow> bool" where
  "whitespace_free f \<longleftrightarrow> (\<forall>w\<in>set whitespace. \<not> str_includes w f)"

text \<open>The three lines a failed run prints, the error a failed stage raises, a stage as
  it appears among the started commands, and the condition under which \<^verbatim>\<open>main\<close>
  skips the build.\<close>

definition diagnostic :: "error \<Rightarrow> string list" where
  "diagnostic e =
     [''A2UI bundling failed. Re-run with: pnpm canvas:a2ui:bundle'',
      ''If this persists, verify pnpm deps and try again.'',
      error_string e]"

definition stage_error :: "string list \<Rightarrow> spawn_result \<Rightarrow> error" where
  "stage_error args res = (case res of SpawnFailed err \<Rightarrow> SpawnError err | Exited status \<Rightarrow> CommandFailed args)"

definition stage :: "host \<Rightarrow> string list \<Rightarrow> string \<times> string list" where
  "stage h args = (command h, fullArgs h args)"

definition upToDate :: "host \<Rightarrow> filesystem \<Rightarrow> string option \<Rightarrow> string \<Rightarrow> bool" where
  "upToDate h fs previous currentHash \<longleftrightarrow> previous = Some currentHash \<and> exists fs (outputFile h)"

text \<open>The loop of \<^verbatim>\<open>computeHash\<close> seen from the hash object: what it is fed for a
  list of keys, each with the result of reading its file.\<close>

fun feed :: "(string \<times> (error + string)) list \<Rightarrow> string \<Rightarrow> error + string" where
  "feed [] hash = Inr hash"
| "feed ((k, r) # es) hash =
     (case r of
        Inl e \<Rightarrow> Inl e
      | Inr bytes \<Rightarrow> feed es (hash @ k @ [CHR 0x00] @ bytes @ [CHR 0x00]))"

subsection \<open>A host and comparators for the examples\<close>

text \<open>Comparison of two strings byte by byte.\<close>

fun byteCompare :: "string \<Rightarrow> string \<Rightarrow> int" where
  "byteCompare [] [] = 0"
| "byteCompare [] (b # bs) = - 1"
| "byteCompare (a # as) [] = 1"
| "byteCompare (a # as) (b # bs) =
     (if (of_char a :: nat) < of_char b then - 1
      else if (of_char b :: nat) < of_char a then 1
      else byteCompare as bs)"

text \<open>ECMA-262 requires of \<^verbatim>\<open>localeCompare\<close> that it is a consistent comparator
  and that it returns \<^verbatim>\<open>+0\<close> on distinguishable strings that are canonically
  equivalent. The letter e followed by U+0301 (bytes 65 CC 81) is canonically
  equivalent to U+00E9 (bytes C3 A9). \<open>canonCompare\<close> replaces the former by the
  latter and compares the results byte by byte.\<close>

fun compose :: "string \<Rightarrow> string" where
  "compose (a # b # c # cs) =
     (if a = CHR 0x65 \<and> b = CHR 0xCC \<and> c = CHR 0x81
      then CHR 0xC3 # CHR 0xA9 # compose cs
      else a # compose (b # c # cs))"
| "compose cs = cs"

definition canonCompare :: "string \<Rightarrow> string \<Rightarrow> int" where
  "canonCompare a b = byteCompare (compose a) (compose b)"

text \<open>A POSIX host whose repository is at \<^verbatim>\<open>/r\<close> and whose external commands
  succeed without touching the file system.\<close>

definition posixHost :: host where
  "posixHost =
     \<lparr>platform = ''linux'', repoRoot = ''/r'', localeCompare = canonCompare,
      npm_execpath = None, execPath = ''/usr/bin/node'',
      spawnSync = (\<lambda>cmd args fs. (Exited (Some 0), fs))\<rparr>"

text \<open>The world before a run: nothing started, nothing printed.\<close>

definition emptyWorld :: "filesystem \<Rightarrow> world" where
  "emptyWorld fs = \<lparr>fsys = fs, spawned = [], stdout = [], stderr = []\<rparr>"

text \<open>A Windows host with the same locale, whose repository is at \<^verbatim>\<open>C:\r\<close>; file
  names that are canonically equivalent (U+00E9, and the letter e followed by U+0301);
  and the file systems of the examples: a repository with its two manifest files, an
  empty application directory, the bundle, and a renderer directory that varies.\<close>

definition nfc :: string where
  "nfc = [CHR 0xC3, CHR 0xA9]"

definition nfd :: string where
  "nfd = [CHR 0x65, CHR 0xCC, CHR 0x81]"

definition lit :: "string list" where
  "lit = [''vendor'', ''a2ui'', ''renderers'', ''lit'']"

definition repoOf :: "host \<Rightarrow> (string list \<times> node) list \<Rightarrow> filesystem" where
  "repoOf h extra =
     fmap_of_list (map (\<lambda>(parts, n). (path_join_all (sep h) (repoRoot h) parts, n))
       (extra @
        [([''package.json''], File ''{}''),
         ([''pnpm-lock.yaml''], File ''lock''),
         ([''apps'', ''shared'', ''OpenClawKit'', ''Tools'', ''CanvasA2UI''], Dir []),
         ([''src'', ''canvas-host'', ''a2ui''], Dir [''a2ui.bundle.js'']),
         ([''src'', ''canvas-host'', ''a2ui'', ''a2ui.bundle.js''], File ''bundle'')]))"

definition winHost :: host where
  "winHost =
     \<lparr>platform = ''win32'', repoRoot = ''C:'' @ [CHR 0x5C] @ ''r'', localeCompare = canonCompare,
      npm_execpath = None, execPath = ''node.exe'',
      spawnSync = (\<lambda>cmd args fs. (Exited (Some 0), fs))\<rparr>"

text \<open>A small File Set, \<^verbatim>\<open>m\<close> and \<^verbatim>\<open>d/x\<close>, as it is stored under the repository of each
  of the two hosts.\<close>

definition smallFs :: filesystem where
  "smallFs = fmap_of_list [(''/r/m'', File ''A''), (''/r/d'', Dir [''x'']), (''/r/d/x'', File ''B'')]"


definition fsNfcFirst :: filesystem where
  "fsNfcFirst = repoOf posixHost [(lit, Dir [nfc, nfd]), (lit @ [nfc], File ''A''), (lit @ [nfd], File ''B'')]"

definition fsNfdFirst :: filesystem where
  "fsNfdFirst = repoOf posixHost [(lit, Dir [nfd, nfc]), (lit @ [nfc], File ''A''), (lit @ [nfd], File ''B'')]"

definition fsPosixAB :: filesystem where
  "fsPosixAB = repoOf posixHost [(lit, Dir [''a'', ''b'']), (lit @ [''a''], File ''X''), (lit @ [''b''], File ''Y'')]"

definition fsWinBA :: filesystem where
  "fsWinBA = repoOf winHost [(lit, Dir [''b'', ''a'']), (lit @ [''a''], File ''X''), (lit @ [''b''], File ''Y'')]"

definition fsPosixA :: filesystem where
  "fsPosixA =
     repoOf posixHost
       [(lit, Dir [''a'']),
        (lit @ [''a''], File (''X'' @ [CHR 0x00] @ ''vendor/a2ui/renderers/lit/b'' @ [CHR 0x00] @ ''Y''))]"

definition msgNfcFirst :: string where
  "msgNfcFirst =
     ''package.json'' @ [CHR 0x00] @ ''{}'' @ [CHR 0x00]
     @ ''pnpm-lock.yaml'' @ [CHR 0x00] @ ''lock'' @ [CHR 0x00]
     @ ''vendor/a2ui/renderers/lit/'' @ nfc @ [CHR 0x00] @ ''A'' @ [CHR 0x00]
     @ ''vendor/a2ui/renderers/lit/'' @ nfd @ [CHR 0x00] @ ''B'' @ [CHR 0x00]"

definition msgNfdFirst :: string where
  "msgNfdFirst =
     ''package.json'' @ [CHR 0x00] @ ''{}'' @ [CHR 0x00]
     @ ''pnpm-lock.yaml'' @ [CHR 0x00] @ ''lock'' @ [CHR 0x00]
     @ ''vendor/a2ui/renderers/lit/'' @ nfd @ [CHR 0x00] @ ''B'' @ [CHR 0x00]
     @ ''vendor/a2ui/renderers/lit/'' @ nfc @ [CHR 0x00] @ ''A'' @ [CHR 0x00]"

definition msgAB :: string where
  "msgAB =
     ''package.json'' @ [CHR 0x00] @ ''{}'' @ [CHR 0x00]
     @ ''pnpm-lock.yaml'' @ [CHR 0x00] @ ''lock'' @ [CHR 0x00]
     @ ''vendor/a2ui/renderers/lit/a'' @ [CHR 0x00] @ ''X'' @ [CHR 0x00]
     @ ''vendor/a2ui/renderers/lit/b'' @ [CHR 0x00] @ ''Y'' @ [CHR 0x00]"

definition msgSmall :: string where
  "msgSmall = ''d/x'' @ [CHR 0x00] @ ''B'' @ [CHR 0x00] @ ''m'' @ [CHR 0x00] @ ''A'' @ [CHR 0x00]"

text \<open>Hosts whose external commands fail: one where every command that names the given
  tool exits with status 1, one where the runner cannot be started; and a repository
  whose cache record holds the fingerprint of its inputs.\<close>

definition failingHost :: "string \<Rightarrow> host" where
  "failingHost tool =
     posixHost\<lparr>spawnSync := (\<lambda>cmd args fs. (Exited (Some (if tool \<in> set args then 1 else 0)), fs))\<rparr>"

definition noPnpmHost :: host where
  "noPnpmHost = posixHost\<lparr>spawnSync := (\<lambda>cmd args fs. (SpawnFailed ''Error: spawnSync pnpm ENOENT'', fs))\<rparr>"

definition fsCached :: filesystem where
  "fsCached =
     repoOf posixHost
       [(lit, Dir [''a'', ''b'']), (lit @ [''a''], File ''X''), (lit @ [''b''], File ''Y''),
        ([''src'', ''canvas-host'', ''a2ui''], Dir [''.bundle.hash'', ''a2ui.bundle.js'']),
        ([''src'', ''canvas-host'', ''a2ui'', ''.bundle.hash''],
         File (''bbcab3dcbf29fc78d3b08fbe11fc9244ff1ed40858c60b9641f1f9d8d79df9e3'' @ [CHR 0x0A]))]"

section \<open>Auxiliary facts\<close>

subsection \<open>Paths\<close>

lemma split_nonempty: "split s p \<noteq> []"
  by (induction p) (auto split: list.splits)

lemma normalize_replace:
  "join ''/'' (split s p) = map (\<lambda>c. if c = s then CHR ''/'' else c) p"
proof (induction p)
  case Nil
  then show ?case by simp
next
  case (Cons c cs)
  obtain w ws where sp: "split s cs = w # ws"
    using split_nonempty [of s cs] by (cases "split s cs") auto
  show ?case
  proof (cases "c = s")
    case True
    then show ?thesis using Cons sp by simp
  next
    case False
    then show ?thesis using Cons sp by (cases ws) simp_all
  qed
qed

lemma split_append_sep: "split s (xs @ s # ys) = split s xs @ split s ys"
proof (induction xs)
  case Nil
  then show ?case by simp
next
  case (Cons x xs)
  obtain w ws where sp: "split s xs = w # ws"
    using split_nonempty [of s xs] by (cases "split s xs") auto
  then show ?case using Cons by simp
qed

lemma split_name: "s \<notin> set n \<Longrightarrow> split s n = [n]"
  by (induction n) auto

lemma split_path_join_all:
  assumes "\<forall>n\<in>set names. s \<notin> set n"
  shows "split s (path_join_all s root names) = split s root @ names"
  using assms
proof (induction names arbitrary: root)
  case Nil
  then show ?case by (simp add: path_join_all_def)
next
  case (Cons n names)
  have "split s (path_join_all s root (n # names)) = split s (path_join_all s (path_join s root n) names)"
    by (simp add: path_join_all_def)
  also have "\<dots> = split s (path_join s root n) @ names"
    using Cons by simp
  also have "\<dots> = (split s root @ [n]) @ names"
    using Cons.prems by (simp add: path_join_def split_append_sep split_name)
  finally show ?case by simp
qed

lemma longest_common_prefix_append: "longest_common_prefix xs (xs @ ys) = xs"
  by (induction xs) auto

lemma split_join_names:
  assumes "\<forall>n\<in>set names. s \<notin> set n" "names \<noteq> []"
  shows "split s (join [s] names) = names"
  using assms
proof (induction names)
  case Nil
  then show ?case by simp
next
  case (Cons n ns)
  show ?case
  proof (cases ns)
    case Nil
    then show ?thesis using Cons.prems by (simp add: split_name)
  next
    case (Cons v ws)
    then have "split s (join [s] ns) = ns"
      using Cons.IH Cons.prems by simp
    then show ?thesis
      using Cons Cons.prems by (simp add: split_append_sep split_name)
  qed
qed

subsection \<open>Enumeration\<close>

lemma walk_result:
  "walk s fs p out = Inr out' \<Longrightarrow>
     \<exists>new. out' = out @ new \<and> (\<forall>q\<in>set new. regular fs q \<and> prefix p q)"
  "walk_entries s fs p es out = Inr out' \<Longrightarrow>
     \<exists>new. out' = out @ new \<and> (\<forall>q\<in>set new. regular fs q \<and> strict_prefix p q)"
proof (induction s fs p out and s fs p es out arbitrary: out' and out' rule: walk_walk_entries.induct)
  case (1 s fs entryPath out)
  show ?case
  proof (cases "fmlookup fs entryPath")
    case None
    then show ?thesis using "1.prems" by (simp add: walk.simps [of s fs entryPath out])
  next
    case (Some n)
    show ?thesis
    proof (cases n)
      case (File bytes)
      then have "out' = out @ [entryPath]"
        using "1.prems" Some by (simp add: walk.simps [of s fs entryPath out])
      moreover have "regular fs entryPath"
        using Some File by (simp add: regular_def)
      ultimately show ?thesis by auto
    next
      case (Dir entries)
      then have "walk_entries s fs entryPath entries out = Inr out'"
        using "1.prems" Some by (simp add: walk.simps [of s fs entryPath out])
      then obtain new where "out' = out @ new" "\<forall>q\<in>set new. regular fs q \<and> strict_prefix entryPath q"
        using "1.IH" [OF Some Dir] by blast
      then show ?thesis by (auto simp: strict_prefix_def)
    qed
  qed
next
  case (2 s fs entryPath out)
  then show ?case by simp
next
  case (3 s fs entryPath entry entries out)
  from "3.prems" obtain mid where w: "walk s fs (path_join s entryPath entry) out = Inr mid"
    and r: "walk_entries s fs entryPath entries mid = Inr out'"
    by (auto split: sum.splits)
  from "3.IH"(1) [OF w] obtain new1 where n1: "mid = out @ new1"
    "\<forall>q\<in>set new1. regular fs q \<and> prefix (path_join s entryPath entry) q" by blast
  from "3.IH"(2) [OF w r] obtain new2 where n2: "out' = mid @ new2"
    "\<forall>q\<in>set new2. regular fs q \<and> strict_prefix entryPath q" by blast
  have "strict_prefix entryPath (path_join s entryPath entry)"
    by (simp add: path_join_def strict_prefix_def prefix_def)
  then have "\<forall>q\<in>set new1. strict_prefix entryPath q"
    using n1(2) by (meson strict_prefix_def prefix_order.dual_order.strict_trans1 prefix_order.less_le_trans)
  then have "out' = out @ (new1 @ new2) \<and> (\<forall>q\<in>set (new1 @ new2). regular fs q \<and> strict_prefix entryPath q)"
    using n1 n2 by auto
  then show ?case by blast
qed

lemma walk_inputs_result:
  "walk_inputs s fs inputs out = Inr files \<Longrightarrow>
     \<exists>new. files = out @ new \<and> (\<forall>q\<in>set new. regular fs q \<and> (\<exists>input\<in>set inputs. prefix input q))"
proof (induction inputs arbitrary: out)
  case Nil
  then show ?case by simp
next
  case (Cons i inputs)
  from Cons.prems obtain mid where w: "walk s fs i out = Inr mid"
    and r: "walk_inputs s fs inputs mid = Inr files"
    by (auto split: sum.splits)
  from walk_result(1) [OF w] obtain new1 where n1: "mid = out @ new1"
    "\<forall>q\<in>set new1. regular fs q \<and> prefix i q" by blast
  from Cons.IH [OF r] obtain new2 where n2: "files = mid @ new2"
    "\<forall>q\<in>set new2. regular fs q \<and> (\<exists>input\<in>set inputs. prefix input q)" by blast
  have "files = out @ (new1 @ new2)
      \<and> (\<forall>q\<in>set (new1 @ new2). regular fs q \<and> (\<exists>input\<in>set (i # inputs). prefix input q))"
    using n1 n2 by auto
  then show ?case by blast
qed

subsection \<open>Sorting with a comparator\<close>

lemma consistent_on_subset: "consistent_on cmp S \<Longrightarrow> T \<subseteq> S \<Longrightarrow> consistent_on cmp T"
  unfolding consistent_on_def by (meson subsetD)

lemma consistent_total:
  "consistent_on cmp S \<Longrightarrow> a \<in> S \<Longrightarrow> b \<in> S \<Longrightarrow> cmp a b \<le> 0 \<or> cmp b a \<le> 0"
  unfolding consistent_on_def by (metis less_le_not_le linorder_le_cases)

lemma consistent_trans:
  "consistent_on cmp S \<Longrightarrow> a \<in> S \<Longrightarrow> b \<in> S \<Longrightarrow> c \<in> S \<Longrightarrow>
   cmp a b \<le> 0 \<Longrightarrow> cmp b c \<le> 0 \<Longrightarrow> cmp a c \<le> 0"
  unfolding consistent_on_def by blast

lemma consistent_antisym:
  assumes "consistent_on cmp S" "tie_free_on cmp S" "a \<in> S" "b \<in> S"
    and "cmp a b \<le> 0" "cmp b a \<le> 0"
  shows "a = b"
proof -
  have "\<not> cmp a b < 0"
    using assms unfolding consistent_on_def by (metis not_le)
  then have "cmp a b = 0" using assms(5) by simp
  then show ?thesis using assms(2-4) unfolding tie_free_on_def by blast
qed

lemma mset_insort_cmp: "mset (insort_cmp cmp x ys) = add_mset x (mset ys)"
  by (induction ys) auto

lemma mset_sort_cmp: "mset (sort_cmp cmp xs) = mset xs"
  by (induction xs) (auto simp: sort_cmp_def mset_insort_cmp)

lemma set_insort_cmp: "set (insort_cmp cmp x ys) = insert x (set ys)"
  by (induction ys) auto

lemma set_sort_cmp: "set (sort_cmp cmp xs) = set xs"
  by (induction xs) (auto simp: sort_cmp_def set_insort_cmp)

lemma sorted_insort_cmp:
  assumes "consistent_on cmp (insert x (set ys))"
    and "sorted_wrt (\<lambda>a b. cmp a b \<le> 0) ys"
  shows "sorted_wrt (\<lambda>a b. cmp a b \<le> 0) (insort_cmp cmp x ys)"
  using assms
proof (induction ys)
  case Nil
  then show ?case by simp
next
  case (Cons y ys)
  let ?S = "insert x (set (y # ys))"
  show ?case
  proof (cases "cmp x y \<le> 0")
    case True
    have "cmp x z \<le> 0" if "z \<in> set ys" for z
    proof -
      have "cmp y z \<le> 0" using Cons.prems(2) that by simp
      then show ?thesis
        using consistent_trans [OF Cons.prems(1), of x y z] True that by simp
    qed
    then show ?thesis using True Cons.prems(2) by simp
  next
    case False
    then have yx: "cmp y x \<le> 0"
      using consistent_total [OF Cons.prems(1), of x y] by simp
    have "consistent_on cmp (insert x (set ys))"
      by (rule consistent_on_subset [OF Cons.prems(1)]) auto
    then have "sorted_wrt (\<lambda>a b. cmp a b \<le> 0) (insort_cmp cmp x ys)"
      using Cons.IH Cons.prems(2) by simp
    then show ?thesis
      using False yx Cons.prems(2) by (auto simp: set_insort_cmp)
  qed
qed

lemma sorted_sort_cmp:
  "consistent_on cmp (set xs) \<Longrightarrow> sorted_wrt (\<lambda>a b. cmp a b \<le> 0) (sort_cmp cmp xs)"
proof (induction xs)
  case Nil
  then show ?case by (simp add: sort_cmp_def)
next
  case (Cons x xs)
  have c: "consistent_on cmp (set xs)"
    by (rule consistent_on_subset [OF Cons.prems]) auto
  have "sorted_wrt (\<lambda>a b. cmp a b \<le> 0) (insort_cmp cmp x (sort_cmp cmp xs))"
    by (rule sorted_insort_cmp) (use Cons c in \<open>simp_all add: set_sort_cmp\<close>)
  then show ?case by (simp add: sort_cmp_def)
qed

lemma sorted_wrt_unique:
  assumes "sorted_wrt R xs" "sorted_wrt R ys" "mset xs = mset ys"
    and "\<And>a b. a \<in> set xs \<Longrightarrow> b \<in> set xs \<Longrightarrow> R a b \<Longrightarrow> R b a \<Longrightarrow> a = b"
  shows "xs = ys"
  using assms
proof (induction xs arbitrary: ys)
  case Nil
  then show ?case by simp
next
  case (Cons x xs)
  then obtain y ys' where ys: "ys = y # ys'"
    by (cases ys) auto
  have sets: "set (x # xs) = set (y # ys')"
    using Cons.prems(3) ys by (metis mset_eq_setD)
  have "x = y"
  proof (rule ccontr)
    assume ne: "x \<noteq> y"
    then have "x \<in> set ys'" and "y \<in> set xs" using sets by auto
    then have "R y x" and "R x y" using Cons.prems(1,2) ys by auto
    moreover have "y \<in> set (x # xs)" using sets by auto
    ultimately show False using Cons.prems(4) [of x y] ne by simp
  qed
  moreover have "xs = ys'"
  proof (rule Cons.IH)
    show "sorted_wrt R xs" using Cons.prems(1) by simp
    show "sorted_wrt R ys'" using Cons.prems(2) ys by simp
    show "mset xs = mset ys'" using Cons.prems(3) ys \<open>x = y\<close> by simp
    show "\<And>a b. a \<in> set xs \<Longrightarrow> b \<in> set xs \<Longrightarrow> R a b \<Longrightarrow> R b a \<Longrightarrow> a = b"
      using Cons.prems(4) by simp
  qed
  ultimately show ?case using ys by simp
qed

lemma sort_cmp_permutation:
  assumes "consistent_on cmp (set xs)" "tie_free_on cmp (set xs)" "mset ys = mset xs"
  shows "sort_cmp cmp ys = sort_cmp cmp xs"
proof (rule sorted_wrt_unique [where R = "\<lambda>a b. cmp a b \<le> 0"])
  have s: "set ys = set xs" using assms(3) by (metis mset_eq_setD)
  show "sorted_wrt (\<lambda>a b. cmp a b \<le> 0) (sort_cmp cmp ys)"
    by (rule sorted_sort_cmp) (simp add: s assms(1))
  show "sorted_wrt (\<lambda>a b. cmp a b \<le> 0) (sort_cmp cmp xs)"
    by (rule sorted_sort_cmp) (simp add: assms(1))
  show "mset (sort_cmp cmp ys) = mset (sort_cmp cmp xs)"
    by (simp add: mset_sort_cmp assms(3))
  show "\<And>a b. a \<in> set (sort_cmp cmp ys) \<Longrightarrow> b \<in> set (sort_cmp cmp ys) \<Longrightarrow>
          cmp a b \<le> 0 \<Longrightarrow> cmp b a \<le> 0 \<Longrightarrow> a = b"
    using consistent_antisym [OF assms(1,2)] by (simp add: set_sort_cmp s)
qed

subsection \<open>Hashing\<close>

lemma replicate_numeral: "replicate (numeral k) x = x # replicate (pred_numeral k) x"
  by (simp add: numeral_eq_Suc)

lemmas sha256_eval =
  sha256_hex_def sha256_def pad_def be64_def blocks.simps compress_def K256_def H256_def add32_def
  ssig0_def ssig1_def bsig0_def bsig1_def ch_def maj_def rotr_def shr_def not32_def sum32_def
  hex32_def hexdigit_def replicate_numeral

text \<open>The test vector of FIPS 180-4 for the message \<^verbatim>\<open>abc\<close>.\<close>

lemma sha256_hex_abc:
  "sha256_hex ''abc'' = ''ba7816bf8f01cfea414140de5dae2223b00361a396177a9cb410ff61f20015ad''"
  by (simp add: sha256_eval)

lemma readFile_regular: "regular fs p \<Longrightarrow> readFile fs p = Inr (contents fs p)"
  by (auto simp: regular_def readFile_def contents_def split: option.splits node.splits)

lemma entry_replace:
  "entry h fs = (\<lambda>p. map (\<lambda>c. if c = sep h then CHR ''/'' else c) (relative (sep h) (repoRoot h) p)
                   @ [CHR 0x00] @ contents fs p @ [CHR 0x00])"
  by (rule ext) (simp add: entry_def key_def normalize_def normalize_replace)

lemma hashLoop_regular:
  "\<forall>p\<in>set files. regular fs p \<Longrightarrow>
   hashLoop h fs files hash = Inr (hash @ concat (map (entry h fs) files))"
  by (induction files arbitrary: hash) (simp_all add: readFile_regular entry_def key_def)

lemma length_rounds: "length st = 8 \<Longrightarrow> length (rounds ks ws st) = 8"
  by (induction ks ws st rule: rounds.induct) simp_all

lemma length_blocks: "length st = 8 \<Longrightarrow> length (blocks st m) = 8"
proof (induction st m rule: blocks.induct)
  case (1 st m)
  show ?case
  proof (cases "length m < 64")
    case True
    then show ?thesis using "1.prems" by (simp add: blocks.simps)
  next
    case False
    have "length (compress st (take 64 m)) = 8"
      using "1.prems" by (simp add: compress_def length_rounds)
    then show ?thesis using False "1.IH" by (simp add: blocks.simps [of st m])
  qed
qed

lemma length_sha256: "length (sha256 m) = 8"
  by (simp add: sha256_def length_blocks H256_def)

lemma hexdigit_nibble: "hexdigit (n mod 16) \<in> set ''0123456789abcdef''"
proof -
  have "n mod 16 < length ''0123456789abcdef''" by simp
  then show ?thesis unfolding hexdigit_def by (rule nth_mem)
qed

lemma hex32_props: "length (hex32 w) = 8" "set (hex32 w) \<subseteq> set ''0123456789abcdef''"
  using hexdigit_nibble by (auto simp: hex32_def)

lemma sha256_hex_lowercase:
  "length (sha256_hex m) = 64 \<and> set (sha256_hex m) \<subseteq> set ''0123456789abcdef''"
proof
  have "length (concat (map hex32 ws)) = 8 * length ws" for ws
    by (induction ws) (simp_all add: hex32_props)
  then show "length (sha256_hex m) = 64"
    by (simp add: sha256_hex_def length_sha256)
  show "set (sha256_hex m) \<subseteq> set ''0123456789abcdef''"
    unfolding sha256_hex_def using hex32_props(2) by fastforce
qed

lemma split_at_separator:
  assumes "x \<notin> set xs" "x \<notin> set xs'" "xs @ x # ys = xs' @ x # ys'"
  shows "xs = xs' \<and> ys = ys'"
  using assms
proof (induction xs arbitrary: xs')
  case Nil
  then show ?case by (cases xs') auto
next
  case (Cons a xs)
  then show ?case by (cases xs') auto
qed

lemma encoding_injective:
  assumes "\<forall>(k, b)\<in>set es. CHR 0x00 \<notin> set k \<and> CHR 0x00 \<notin> set b"
    and "\<forall>(k, b)\<in>set es'. CHR 0x00 \<notin> set k \<and> CHR 0x00 \<notin> set b"
    and "concat (map (\<lambda>(k, b). k @ [CHR 0x00] @ b @ [CHR 0x00]) es)
       = concat (map (\<lambda>(k, b). k @ [CHR 0x00] @ b @ [CHR 0x00]) es')"
  shows "es = es'"
  using assms
proof (induction es arbitrary: es')
  case Nil
  then show ?case by (cases es') auto
next
  case (Cons e es)
  obtain k b where e: "e = (k, b)" by (cases e)
  from Cons.prems(3) e obtain e' es'' where es': "es' = e' # es''"
    by (cases es') auto
  obtain k' b' where e': "e' = (k', b')" by (cases e')
  let ?rest = "\<lambda>xs. concat (map (\<lambda>(k, b). k @ [CHR 0x00] @ b @ [CHR 0x00]) xs)"
  have nul: "CHR 0x00 \<notin> set k" "CHR 0x00 \<notin> set b" "CHR 0x00 \<notin> set k'" "CHR 0x00 \<notin> set b'"
    using Cons.prems(1,2) e e' es' by auto
  have eq: "k @ CHR 0x00 # (b @ CHR 0x00 # ?rest es) = k' @ CHR 0x00 # (b' @ CHR 0x00 # ?rest es'')"
    using Cons.prems(3) e e' es' by simp
  then have "k = k' \<and> b @ CHR 0x00 # ?rest es = b' @ CHR 0x00 # ?rest es''"
    by (rule split_at_separator [OF nul(1) nul(3)])
  then have k: "k = k'" and eq2: "b @ CHR 0x00 # ?rest es = b' @ CHR 0x00 # ?rest es''"
    by (rule conjunct1, rule conjunct2)
  from eq2 have "b = b' \<and> ?rest es = ?rest es''"
    by (rule split_at_separator [OF nul(2) nul(4)])
  then have b: "b = b'" and eq3: "?rest es = ?rest es''"
    by (rule conjunct1, rule conjunct2)
  have "es = es''"
    using Cons.IH [of es''] Cons.prems(1,2) es' eq3 by simp
  then show ?case using k b e e' es' by simp
qed

lemma hashLoop_feed:
  "hashLoop h fs files hash = feed (map (\<lambda>p. (key h p, readFile fs p)) files) hash"
  by (induction files arbitrary: hash) (simp_all add: key_def split: sum.splits)

lemma hashLoop_Inr_regular:
  "hashLoop h fs files hash = Inr m \<Longrightarrow> \<forall>p\<in>set files. regular fs p"
proof (induction files arbitrary: hash)
  case Nil
  then show ?case by simp
next
  case (Cons p ps)
  from Cons.prems obtain bytes where r: "readFile fs p = Inr bytes"
    and rest: "hashLoop h fs ps (hash @ normalize h (relative (sep h) (repoRoot h) p) @ [CHR 0x00]
                  @ bytes @ [CHR 0x00]) = Inr m"
    by (auto split: sum.splits)
  have "regular fs p"
    using r by (auto simp: readFile_def regular_def split: option.splits node.splits)
  moreover have "\<forall>q\<in>set ps. regular fs q"
    using Cons.IH [OF rest] .
  ultimately show ?case by simp
qed

lemma sorted_keys:
  assumes "sorted_wrt (\<lambda>p q. cmp p q \<le> 0) xs"
    and "\<forall>p\<in>set xs. \<forall>q\<in>set xs. (cmp p q \<le> 0) = le (k p) (k q)"
  shows "sorted_wrt (\<lambda>a b. le (fst a) (fst b)) (map (\<lambda>p. (k p, c p)) xs)"
proof -
  have "sorted_wrt (\<lambda>p q. le (k p) (k q)) xs"
    by (rule sorted_wrt_mono_rel [OF _ assms(1)]) (use assms(2) in auto)
  then show ?thesis by (simp add: sorted_wrt_map)
qed

subsection \<open>Trimming\<close>

lemma str_includes_iff: "str_includes w f \<longleftrightarrow> (\<exists>ps ss. f = ps @ w @ ss)"
proof (induction f)
  case Nil
  then show ?case by auto
next
  case (Cons c cs)
  show ?case
  proof
    assume "str_includes w (c # cs)"
    then consider "prefix w (c # cs)" | "str_includes w cs" by auto
    then show "\<exists>ps ss. c # cs = ps @ w @ ss"
    proof cases
      case 1
      then obtain ss where "c # cs = w @ ss" by (auto simp: prefix_def)
      then have "c # cs = [] @ w @ ss" by simp
      then show ?thesis by blast
    next
      case 2
      then obtain ps ss where "cs = ps @ w @ ss" using Cons.IH by blast
      then have "c # cs = (c # ps) @ w @ ss" by simp
      then show ?thesis by blast
    qed
  next
    assume "\<exists>ps ss. c # cs = ps @ w @ ss"
    then obtain ps ss where e: "c # cs = ps @ w @ ss" by blast
    show "str_includes w (c # cs)"
    proof (cases ps)
      case Nil
      then have "prefix w (c # cs)" using e by (simp add: prefix_def)
      then show ?thesis by simp
    next
      case (Cons p ps')
      then have "cs = ps' @ w @ ss" using e by simp
      then have "str_includes w cs" using Cons.IH by blast
      then show ?thesis by simp
    qed
  qed
qed

lemma whitespace_free_prefix: "whitespace_free f \<Longrightarrow> w \<in> set whitespace \<Longrightarrow> \<not> prefix w f"
  unfolding whitespace_free_def str_includes_iff prefix_def by (metis append_Nil)

lemma whitespace_free_suffix: "whitespace_free f \<Longrightarrow> w \<in> set whitespace \<Longrightarrow> \<not> suffix w f"
  unfolding whitespace_free_def str_includes_iff suffix_def by (metis append_Nil2)

lemma trimStart_none:
  assumes "\<forall>w\<in>set whitespace. \<not> prefix w s"
  shows "trimStart s = s"
proof -
  have "find (\<lambda>w. prefix w s) whitespace = None"
    using assms by (simp add: find_None_iff)
  then show ?thesis by (simp add: trimStart.simps [of s])
qed

lemma trimEnd_none:
  assumes "\<forall>w\<in>set whitespace. \<not> suffix w s"
  shows "trimEnd s = s"
proof -
  have "find (\<lambda>w. suffix w s) whitespace = None"
    using assms by (simp add: find_None_iff)
  then show ?thesis by (simp add: trimEnd.simps [of s])
qed

lemma suffix_single: "suffix [a] (f @ [b]) \<longleftrightarrow> a = b"
  by (auto simp: suffix_def)

lemma trimEnd_newline: "trimEnd (f @ [CHR 0x0A]) = trimEnd f"
proof -
  have "find (\<lambda>w. suffix w (f @ [CHR 0x0A])) whitespace = Some [CHR 0x0A]"
    by (simp add: whitespace_def suffix_single)
  then show ?thesis
    by (simp add: trimEnd.simps [of "f @ [CHR 0x0A]"])
qed

lemma no_whitespace_ends_in_newline:
  "w \<in> set whitespace \<Longrightarrow> w = f @ [CHR 0x0A] \<Longrightarrow> f = []"
  by (auto simp: whitespace_def)

lemma trim_newline:
  assumes "whitespace_free f"
  shows "trim (f @ [CHR 0x0A]) = f"
proof (cases "f = []")
  case True
  have "find (\<lambda>w. prefix w [CHR 0x0A]) whitespace = Some [CHR 0x0A]"
    by (simp add: whitespace_def)
  then have "trimStart [CHR 0x0A] = trimStart []"
    by (simp add: trimStart.simps [of "[CHR 0x0A]"])
  also have "\<dots> = []"
    by (rule trimStart_none) (auto simp: whitespace_def)
  finally have "trimStart [CHR 0x0A] = []" .
  moreover have "trimEnd [] = []"
    by (rule trimEnd_none) (auto simp: whitespace_def)
  ultimately show ?thesis using True by (simp add: trim_def)
next
  case False
  have "\<not> prefix w (f @ [CHR 0x0A])" if w: "w \<in> set whitespace" for w
  proof
    assume "prefix w (f @ [CHR 0x0A])"
    then have "prefix w f \<or> w = f @ [CHR 0x0A]"
      by (auto simp: prefix_snoc)
    then show False
      using whitespace_free_prefix [OF assms w] no_whitespace_ends_in_newline [OF w] False by blast
  qed
  then have "trimStart (f @ [CHR 0x0A]) = f @ [CHR 0x0A]"
    by (simp add: trimStart_none)
  moreover have "trimEnd f = f"
    by (rule trimEnd_none) (use whitespace_free_suffix [OF assms] in blast)
  ultimately show ?thesis
    by (simp add: trim_def trimEnd_newline)
qed

lemma writeFile_lookup:
  "writeFile s fs p bytes = Inr fs' \<Longrightarrow> fmlookup fs' p = Some (File bytes)"
  by (auto simp: writeFile_def split: option.splits node.splits)

lemma computeHash_hex:
  assumes "computeHash h fs = Inr d"
  shows "length d = 64 \<and> set d \<subseteq> set ''0123456789abcdef''"
proof -
  from assms obtain m where "d = sha256_hex m"
    by (auto simp: computeHash_def hashFiles_def split: sum.splits)
  then show ?thesis using sha256_hex_lowercase by simp
qed

lemma hex_whitespace_free:
  assumes "set f \<subseteq> set ''0123456789abcdef''"
  shows "whitespace_free f"
  unfolding whitespace_free_def
proof (intro ballI notI)
  fix w
  assume w: "w \<in> set whitespace" and "str_includes w f"
  then have "set w \<subseteq> set f"
    by (auto simp: str_includes_iff)
  moreover have "hd w \<in> set w"
    using whitespace_nonempty [OF w] by simp
  moreover have "hd w \<notin> set ''0123456789abcdef''"
    using w by (auto simp: whitespace_def)
  ultimately show False using assms by blast
qed

lemma readCache_after_write:
  assumes "whitespace_free f"
    and "writeCache h fs f = Inr fs'"
  shows "readCache h fs' = Inr (Some f)"
proof -
  have "fmlookup fs' (hashFile h) = Some (File (f @ [CHR 0x0A]))"
    using assms(2) unfolding writeCache_def by (rule writeFile_lookup)
  then show ?thesis
    using trim_newline [OF assms(1)]
    by (simp add: readCache_def exists_def readFile_utf8_def readFile_def)
qed

subsection \<open>The run\<close>

lemma run_Inr: "main h w = (Inr u, w') \<Longrightarrow> run h w = (0, w')"
  by (simp add: run_def)

lemma run_Inl:
  "main h w = (Inl e, w') \<Longrightarrow> run h w = (1, w'\<lparr>stderr := stderr w' @ diagnostic e\<rparr>)"
  by (simp add: run_def console_error_def diagnostic_def)

lemma runPnpm_result:
  "runPnpm h args w =
     (if fst (spawnSync h (command h) (fullArgs h args) (fsys w)) = Exited (Some 0) then Inr ()
      else Inl (stage_error args (fst (spawnSync h (command h) (fullArgs h args) (fsys w)))),
      w\<lparr>fsys := snd (spawnSync h (command h) (fullArgs h args) (fsys w)),
        spawned := spawned w @ [stage h args]\<rparr>)"
  by (auto simp: runPnpm_def stage_error_def stage_def Let_def split: prod.splits spawn_result.splits)

lemma main_decided:
  assumes "exists (fsys w) (a2uiRendererDir h)" "exists (fsys w) (a2uiAppDir h)"
    and "computeHash h (fsys w) = Inr currentHash"
    and "readCache h (fsys w) = Inr previous"
  shows "main h w =
           (if upToDate h (fsys w) previous currentHash
            then (Inr (), w\<lparr>stdout := stdout w @ [''A2UI bundle up to date; skipping.'']\<rparr>)
            else rebuild h currentHash w)"
  using assms by (simp add: main_def upToDate_def console_log_def)

lemma rebuild_stage1_fails:
  assumes "fst (spawnSync h (command h) (fullArgs h (tscArgs h)) (fsys w)) \<noteq> Exited (Some 0)"
  shows "rebuild h currentHash w =
           (Inl (stage_error (tscArgs h) (fst (spawnSync h (command h) (fullArgs h (tscArgs h)) (fsys w)))),
            w\<lparr>fsys := snd (spawnSync h (command h) (fullArgs h (tscArgs h)) (fsys w)),
              spawned := spawned w @ [stage h (tscArgs h)]\<rparr>)"
  using assms by (simp add: rebuild_def runPnpm_result)

lemma rebuild_stage2_fails:
  assumes "fst (spawnSync h (command h) (fullArgs h (tscArgs h)) (fsys w)) = Exited (Some 0)"
    and "fst (spawnSync h (command h) (fullArgs h (rolldownArgs h))
               (snd (spawnSync h (command h) (fullArgs h (tscArgs h)) (fsys w)))) \<noteq> Exited (Some 0)"
  shows "rebuild h currentHash w =
           (Inl (stage_error (rolldownArgs h)
                  (fst (spawnSync h (command h) (fullArgs h (rolldownArgs h))
                         (snd (spawnSync h (command h) (fullArgs h (tscArgs h)) (fsys w)))))),
            w\<lparr>fsys := snd (spawnSync h (command h) (fullArgs h (rolldownArgs h))
                            (snd (spawnSync h (command h) (fullArgs h (tscArgs h)) (fsys w)))),
              spawned := spawned w @ [stage h (tscArgs h), stage h (rolldownArgs h)]\<rparr>)"
  using assms by (simp add: rebuild_def runPnpm_result)

lemma rebuild_spawned:
  "spawned (snd (rebuild h currentHash w)) =
     spawned w @ stage h (tscArgs h) #
       (if fst (spawnSync h (command h) (fullArgs h (tscArgs h)) (fsys w)) = Exited (Some 0)
        then [stage h (rolldownArgs h)] else [])"
  by (simp add: rebuild_def runPnpm_result split: sum.splits)

lemma run_spawned: "spawned (snd (run h w)) = spawned (snd (main h w))"
  by (cases "main h w") (auto simp: run_def console_error_def split: sum.splits)

lemma walk_error:
  "walk s fs p out = Inl e \<Longrightarrow> \<exists>q. e = ENOENT ''stat'' q"
  "walk_entries s fs p es out = Inl e \<Longrightarrow> \<exists>q. e = ENOENT ''stat'' q"
proof (induction s fs p out and s fs p es out arbitrary: e and e rule: walk_walk_entries.induct)
  case (1 s fs entryPath out)
  then show ?case
    by (auto simp: walk.simps [of s fs entryPath out] split: option.splits node.splits)
next
  case (2 s fs entryPath out)
  then show ?case by simp
next
  case (3 s fs entryPath entry entries out)
  then show ?case by (auto split: sum.splits)
qed

lemma walk_inputs_missing:
  assumes "input \<in> set inputs" "fmlookup fs input = None"
  shows "\<exists>q. walk_inputs s fs inputs out = Inl (ENOENT ''stat'' q)"
  using assms
proof (induction inputs arbitrary: out)
  case Nil
  then show ?case by simp
next
  case (Cons i inputs)
  show ?case
  proof (cases "walk s fs i out")
    case (Inl e)
    then show ?thesis using walk_error(1) [OF Inl] by auto
  next
    case (Inr out')
    then have "i \<noteq> input" using Cons.prems(2) by (auto simp: walk.simps [of s fs i out])
    then show ?thesis using Cons Inr by auto
  qed
qed

subsection \<open>The comparator of the examples\<close>

lemma byteCompare_flip: "(byteCompare a b < 0) = (0 < byteCompare b a)"
  by (induction a b rule: byteCompare.induct) auto

lemma byteCompare_trans:
  "byteCompare a b \<le> 0 \<Longrightarrow> byteCompare b c \<le> 0 \<Longrightarrow> byteCompare a c \<le> 0"
proof (induction a b arbitrary: c rule: byteCompare.induct)
  case 1
  then show ?case by simp
next
  case (2 b bs)
  then show ?case by (cases c) simp_all
next
  case (3 a as)
  then show ?case by simp
next
  case (4 a as b bs)
  show ?case
  proof (cases c)
    case Nil
    then show ?thesis using "4.prems" by simp
  next
    case (Cons x xs)
    consider "(of_char a :: nat) < of_char b" | "(of_char a :: nat) = of_char b"
      using "4.prems"(1) by (auto split: if_splits) 
    then show ?thesis
    proof cases
      case 1
      then have "(of_char a :: nat) < of_char x"
        using "4.prems"(2) Cons by (auto split: if_splits)
      then show ?thesis using Cons by simp
    next
      case 2
      then have ab: "byteCompare as bs \<le> 0" using "4.prems"(1) by simp
      consider "(of_char b :: nat) < of_char x" | "(of_char b :: nat) = of_char x"
        using "4.prems"(2) Cons by (auto split: if_splits)
      then show ?thesis
      proof cases
        case 1
        then show ?thesis using 2 Cons by simp
      next
        case 2
        then have "byteCompare bs xs \<le> 0" using "4.prems"(2) Cons by simp
        then have "byteCompare as xs \<le> 0"
          using "4.IH" [of xs] ab \<open>of_char a = of_char b\<close> by simp
        then show ?thesis using 2 \<open>of_char a = of_char b\<close> Cons by simp
      qed
    qed
  qed
qed

lemma consistent_on_canonCompare:
  assumes "localeCompare h = canonCompare"
  shows "consistent_on (compareFiles h) S"
  unfolding consistent_on_def
proof (intro conjI ballI impI)
  fix a b
  show "(compareFiles h a b < 0) = (0 < compareFiles h b a)"
    by (simp add: compareFiles_def assms canonCompare_def byteCompare_flip)
next
  fix a b c
  assume "compareFiles h a b \<le> 0 \<and> compareFiles h b c \<le> 0"
  then show "compareFiles h a c \<le> 0"
    unfolding compareFiles_def assms canonCompare_def using byteCompare_trans by blast
qed

subsection \<open>The examples, evaluated\<close>

lemmas example_simps =
  posixHost_def winHost_def sep_def path_join_all_def path_join_def repoOf_def lit_def nfc_def nfd_def
  fmlookup_of_list inputPaths_def a2uiRendererDir_def a2uiAppDir_def hashFile_def outputFile_def
  walk.simps normalize_def relative_def segments_def compareFiles_def canonCompare_def
  sortFiles_def sort_cmp_def readFile_def exists_def key_def contents_def regular_def
  smallFs_def fsNfcFirst_def fsNfdFirst_def fsPosixAB_def fsWinBA_def fsPosixA_def
  msgNfcFirst_def msgNfdFirst_def msgAB_def msgSmall_def

lemma computeHash_fsNfcFirst: "computeHash posixHost fsNfcFirst = Inr (sha256_hex msgNfcFirst)"
  by (simp add: example_simps computeHash_def hashFiles_def)

lemma computeHash_fsNfdFirst: "computeHash posixHost fsNfdFirst = Inr (sha256_hex msgNfdFirst)"
  by (simp add: example_simps computeHash_def hashFiles_def)

lemma sha256_hex_msgNfcFirst:
  "sha256_hex msgNfcFirst = ''73d77716d29ff6001619d705a4af60b2eaf3c963761dfb598dc004653779d9f5''"
  unfolding msgNfcFirst_def nfc_def nfd_def by (simp add: sha256_eval)

lemma sha256_hex_msgNfdFirst:
  "sha256_hex msgNfdFirst = ''3f3ce0e96cc59c8b28b21b06147bb7255db126e54eacd4fcbbd0756f3f84581f''"
  unfolding msgNfdFirst_def nfc_def nfd_def by (simp add: sha256_eval)


lemma walk_inputs_fsPosixAB:
  "walk_inputs (sep posixHost) fsPosixAB (inputPaths posixHost) [] =
     Inr [''/r/package.json'', ''/r/pnpm-lock.yaml'',
          ''/r/vendor/a2ui/renderers/lit/a'', ''/r/vendor/a2ui/renderers/lit/b'']"
  by (simp add: example_simps)

lemma walk_inputs_fsWinBA:
  "walk_inputs (sep winHost) fsWinBA (inputPaths winHost) [] =
     Inr [''C:'' @ [CHR 0x5C] @ ''r'' @ [CHR 0x5C] @ ''package.json'',
          ''C:'' @ [CHR 0x5C] @ ''r'' @ [CHR 0x5C] @ ''pnpm-lock.yaml'',
          ''C:'' @ [CHR 0x5C] @ ''r'' @ [CHR 0x5C] @ ''vendor'' @ [CHR 0x5C] @ ''a2ui'' @ [CHR 0x5C]
             @ ''renderers'' @ [CHR 0x5C] @ ''lit'' @ [CHR 0x5C] @ ''b'',
          ''C:'' @ [CHR 0x5C] @ ''r'' @ [CHR 0x5C] @ ''vendor'' @ [CHR 0x5C] @ ''a2ui'' @ [CHR 0x5C]
             @ ''renderers'' @ [CHR 0x5C] @ ''lit'' @ [CHR 0x5C] @ ''a'']"
  by (simp add: example_simps)

lemmas example_simps2 = example_simps failingHost_def noPnpmHost_def fsCached_def

lemma sha256_hex_msgAB:
  "sha256_hex msgAB = ''bbcab3dcbf29fc78d3b08fbe11fc9244ff1ed40858c60b9641f1f9d8d79df9e3''"
  unfolding msgAB_def by (simp add: sha256_eval)

lemma computeHash_fsPosixAB: "computeHash posixHost fsPosixAB = Inr (sha256_hex msgAB)"
  by (simp add: example_simps computeHash_def hashFiles_def)

lemma computeHash_fsCached: "computeHash posixHost fsCached = Inr (sha256_hex msgAB)"
  by (simp add: example_simps2 computeHash_def hashFiles_def)

lemma hashLoop_spawnSync_update:
  "hashLoop (h\<lparr>spawnSync := f\<rparr>) fs files hash = hashLoop h fs files hash"
  by (induction files arbitrary: hash) (simp_all add: normalize_def sep_def split: sum.splits)

lemma hashFiles_spawnSync_update:
  "hashFiles (h\<lparr>spawnSync := f\<rparr>) fs files = hashFiles h fs files"
  by (simp add: hashFiles_def sortFiles_def compareFiles_def [abs_def] normalize_def sep_def
        hashLoop_spawnSync_update)

lemma computeHash_spawnSync_update: "computeHash (h\<lparr>spawnSync := f\<rparr>) fs = computeHash h fs"
proof -
  have "sep (h\<lparr>spawnSync := f\<rparr>) = sep h"
    by (simp add: sep_def)
  moreover have "inputPaths (h\<lparr>spawnSync := f\<rparr>) = inputPaths h"
    by (simp add: inputPaths_def a2uiRendererDir_def a2uiAppDir_def sep_def)
  ultimately show ?thesis
    by (simp add: computeHash_def hashFiles_spawnSync_update split: sum.splits)
qed

section \<open>Properties\<close>

subsection \<open>Enumeration\<close>

text \<open>C8. A root that is a regular file is enumerated as exactly that one file, and a
  root that is an empty directory adds nothing to the enumerated list.\<close>

theorem walk_file_or_empty_dir:
  "(fmlookup fs p = Some (File bytes) \<longrightarrow> walk s fs p out = Inr (out @ [p])) \<and>
   (fmlookup fs p = Some (Dir []) \<longrightarrow> walk s fs p out = Inr out)"
  by (simp add: walk.simps)

theorem walk_file_or_empty_dir_witness:
  "walk (CHR ''/'') (fmap_of_list [(''/r/m'', File ''A''), (''/r/d'', Dir [])]) ''/r/m'' [] = Inr [''/r/m''] \<and>
   walk (CHR ''/'') (fmap_of_list [(''/r/m'', File ''A''), (''/r/d'', Dir [])]) ''/r/d'' [''/r/m''] = Inr [''/r/m'']"
  using walk_file_or_empty_dir [of "fmap_of_list [(''/r/m'', File ''A''), (''/r/d'', Dir [])]" "''/r/m''" "''A''" "CHR ''/''" "[]"]
        walk_file_or_empty_dir [of "fmap_of_list [(''/r/m'', File ''A''), (''/r/d'', Dir [])]" "''/r/d''" "''A''" "CHR ''/''" "[''/r/m'']"]
  by (simp add: fmlookup_of_list)

subsection \<open>The fingerprint\<close>



text \<open>C1 (as amended). Two runs of \<^verbatim>\<open>computeHash\<close>, on any two hosts and in any
  enumeration order, that see the same File Set (one file per normalized relative path,
  the same bytes) return the same result, provided both hosts' comparators are
  consistent and order the enumerated files as one common ordering \<open>le\<close> of the
  relative paths does, in which no two distinct paths of the set compare equal.\<close>

theorem computeHash_same_file_set:
  fixes le :: "string \<Rightarrow> string \<Rightarrow> bool"
  assumes enum: "walk_inputs (sep h) fs (inputPaths h) [] = Inr files"
               "walk_inputs (sep h') fs' (inputPaths h') [] = Inr files'"
    and same: "mset (map (\<lambda>p. (key h' p, readFile fs' p)) files')
               = mset (map (\<lambda>p. (key h p, readFile fs p)) files)"
    and one: "distinct (map (key h) files)"
    and cons: "consistent_on (compareFiles h) (set files)"
              "consistent_on (compareFiles h') (set files')"
    and agree: "\<forall>p\<in>set files. \<forall>q\<in>set files. (compareFiles h p q \<le> 0) = le (key h p) (key h q)"
               "\<forall>p\<in>set files'. \<forall>q\<in>set files'. (compareFiles h' p q \<le> 0) = le (key h' p) (key h' q)"
    and ties: "\<forall>p\<in>set files. \<forall>q\<in>set files. le (key h p) (key h q) \<longrightarrow> le (key h q) (key h p) \<longrightarrow> key h p = key h q"
  shows "computeHash h' fs' = computeHash h fs"
proof -
  let ?f = "\<lambda>p. (key h p, readFile fs p)" and ?g = "\<lambda>p. (key h' p, readFile fs' p)"
  let ?xs = "sortFiles h files" and ?ys = "sortFiles h' files'"
  let ?R = "\<lambda>a b :: string \<times> (error + string). le (fst a) (fst b)"
  have sx: "set ?xs = set files" and sy: "set ?ys = set files'"
    by (simp_all add: sortFiles_def set_sort_cmp)
  have mx: "mset (map ?f ?xs) = mset (map ?f files)"
    by (simp add: sortFiles_def mset_sort_cmp)
  have my: "mset (map ?g ?ys) = mset (map ?g files')"
    by (simp add: sortFiles_def mset_sort_cmp)
  have "sorted_wrt (\<lambda>p q. compareFiles h p q \<le> 0) ?xs"
    unfolding sortFiles_def by (rule sorted_sort_cmp [OF cons(1)])
  then have 1: "sorted_wrt ?R (map ?f ?xs)"
    by (rule sorted_keys) (use agree(1) sx in simp)
  have "sorted_wrt (\<lambda>p q. compareFiles h' p q \<le> 0) ?ys"
    unfolding sortFiles_def by (rule sorted_sort_cmp [OF cons(2)])
  then have 2: "sorted_wrt ?R (map ?g ?ys)"
    by (rule sorted_keys) (use agree(2) sy in simp)
  have 3: "mset (map ?f ?xs) = mset (map ?g ?ys)"
    using mx my same by simp
  have inj: "inj_on (key h) (set files)"
    using one by (simp add: distinct_map)
  have 4: "a = b" if "a \<in> set (map ?f ?xs)" "b \<in> set (map ?f ?xs)" "?R a b" "?R b a" for a b
  proof -
    from that(1,2) sx obtain p q where p: "p \<in> set files" "a = ?f p" and q: "q \<in> set files" "b = ?f q"
      by auto
    then have "key h p = key h q" using ties that(3,4) by simp
    then have "p = q" using inj p(1) q(1) by (simp add: inj_on_def)
    then show ?thesis using p q by simp
  qed
  have "map ?f ?xs = map ?g ?ys"
    by (rule sorted_wrt_unique [OF 1 2 3 4])
  then have "hashFiles h' fs' files' = hashFiles h fs files"
    by (simp add: hashFiles_def hashLoop_feed)
  then show ?thesis
    using enum by (simp add: computeHash_def)
qed

theorem computeHash_same_file_set_witness:
  "computeHash winHost fsWinBA = computeHash posixHost fsPosixAB"
proof (rule computeHash_same_file_set [where le = "\<lambda>k k'. byteCompare k k' \<le> 0"])
  let ?P = "[''/r/package.json'', ''/r/pnpm-lock.yaml'',
          ''/r/vendor/a2ui/renderers/lit/a'', ''/r/vendor/a2ui/renderers/lit/b'']"
  let ?W = "[''C:'' @ [CHR 0x5C] @ ''r'' @ [CHR 0x5C] @ ''package.json'',
          ''C:'' @ [CHR 0x5C] @ ''r'' @ [CHR 0x5C] @ ''pnpm-lock.yaml'',
          ''C:'' @ [CHR 0x5C] @ ''r'' @ [CHR 0x5C] @ ''vendor'' @ [CHR 0x5C] @ ''a2ui'' @ [CHR 0x5C]
             @ ''renderers'' @ [CHR 0x5C] @ ''lit'' @ [CHR 0x5C] @ ''b'',
          ''C:'' @ [CHR 0x5C] @ ''r'' @ [CHR 0x5C] @ ''vendor'' @ [CHR 0x5C] @ ''a2ui'' @ [CHR 0x5C]
             @ ''renderers'' @ [CHR 0x5C] @ ''lit'' @ [CHR 0x5C] @ ''a'']"
  show "walk_inputs (sep posixHost) fsPosixAB (inputPaths posixHost) [] = Inr ?P"
    by (rule walk_inputs_fsPosixAB)
  show "walk_inputs (sep winHost) fsWinBA (inputPaths winHost) [] = Inr ?W"
    by (rule walk_inputs_fsWinBA)
  show "mset (map (\<lambda>p. (key winHost p, readFile fsWinBA p)) ?W)
      = mset (map (\<lambda>p. (key posixHost p, readFile fsPosixAB p)) ?P)"
    by (simp add: example_simps)
  show "distinct (map (key posixHost) ?P)"
    by (simp add: example_simps)
  show "consistent_on (compareFiles posixHost) (set ?P)"
    by (rule consistent_on_canonCompare) (simp add: posixHost_def)
  show "consistent_on (compareFiles winHost) (set ?W)"
    by (rule consistent_on_canonCompare) (simp add: winHost_def)
  show "\<forall>p\<in>set ?P. \<forall>q\<in>set ?P.
          (compareFiles posixHost p q \<le> 0) = (byteCompare (key posixHost p) (key posixHost q) \<le> 0)"
    by (simp add: example_simps)
  show "\<forall>p\<in>set ?W. \<forall>q\<in>set ?W.
          (compareFiles winHost p q \<le> 0) = (byteCompare (key winHost p) (key winHost q) \<le> 0)"
    by (simp add: example_simps)
  show "\<forall>p\<in>set ?P. \<forall>q\<in>set ?P.
          byteCompare (key posixHost p) (key posixHost q) \<le> 0 \<longrightarrow>
          byteCompare (key posixHost q) (key posixHost p) \<le> 0 \<longrightarrow> key posixHost p = key posixHost q"
    by (simp add: example_simps)
qed

text \<open>The claim as stated fails where two distinct names compare equal: the same File
  Set, listed by \<^verbatim>\<open>readdir\<close> in two orders, has two digests.\<close>

theorem computeHash_enumeration_order_counterexample:
  "computeHash posixHost fsNfcFirst = Inr ''73d77716d29ff6001619d705a4af60b2eaf3c963761dfb598dc004653779d9f5'' \<and>
   computeHash posixHost fsNfdFirst = Inr ''3f3ce0e96cc59c8b28b21b06147bb7255db126e54eacd4fcbbd0756f3f84581f'' \<and>
   computeHash posixHost fsNfcFirst \<noteq> computeHash posixHost fsNfdFirst"
  by (simp add: computeHash_fsNfcFirst computeHash_fsNfdFirst sha256_hex_msgNfcFirst sha256_hex_msgNfdFirst)

text \<open>C6 (as amended). The list is sorted by \<^verbatim>\<open>localeCompare\<close> on the normalized
  (absolute) paths. Where that comparator is consistent on the enumerated files and no
  two distinct files compare equal, the sorted list is the same for every enumeration
  order of the same files: it is ascending and holds the same files.\<close>

theorem sortFiles_determined:
  assumes "consistent_on (compareFiles h) (set files)"
    and "tie_free_on (compareFiles h) (set files)"
    and "mset files' = mset files"
  shows "sortFiles h files' = sortFiles h files
       \<and> sorted_wrt (\<lambda>a b. compareFiles h a b \<le> 0) (sortFiles h files)
       \<and> mset (sortFiles h files) = mset files"
  unfolding sortFiles_def
  using sort_cmp_permutation [OF assms] sorted_sort_cmp [OF assms(1)] mset_sort_cmp [of "compareFiles h" files]
  by simp

theorem sortFiles_determined_witness:
  "sortFiles posixHost [''/r/d/x'', ''/r/m''] = sortFiles posixHost [''/r/m'', ''/r/d/x'']
   \<and> sortFiles posixHost [''/r/m'', ''/r/d/x''] = [''/r/d/x'', ''/r/m'']"
proof -
  have "consistent_on (compareFiles posixHost) (set [''/r/m'', ''/r/d/x''])"
    by (rule consistent_on_canonCompare) (simp add: posixHost_def)
  moreover have "tie_free_on (compareFiles posixHost) (set [''/r/m'', ''/r/d/x''])"
    by (simp add: tie_free_on_def example_simps)
  moreover have "mset [''/r/d/x'', ''/r/m''] = mset [''/r/m'', ''/r/d/x'']"
    by simp
  ultimately have "sortFiles posixHost [''/r/d/x'', ''/r/m''] = sortFiles posixHost [''/r/m'', ''/r/d/x'']"
    using sortFiles_determined [of posixHost "[''/r/m'', ''/r/d/x'']" "[''/r/d/x'', ''/r/m'']"] by blast
  moreover have "sortFiles posixHost [''/r/m'', ''/r/d/x''] = [''/r/d/x'', ''/r/m'']"
    by (simp add: example_simps)
  ultimately show ?thesis by simp
qed

text \<open>Two distinct paths that compare equal keep the order in which they were
  enumerated.\<close>

theorem sortFiles_ties_counterexample:
  "compareFiles posixHost (''/r/vendor/a2ui/renderers/lit/'' @ nfc) (''/r/vendor/a2ui/renderers/lit/'' @ nfd) = 0 \<and>
   ''/r/vendor/a2ui/renderers/lit/'' @ nfc \<noteq> ''/r/vendor/a2ui/renderers/lit/'' @ nfd \<and>
   sortFiles posixHost [''/r/vendor/a2ui/renderers/lit/'' @ nfc, ''/r/vendor/a2ui/renderers/lit/'' @ nfd]
     = [''/r/vendor/a2ui/renderers/lit/'' @ nfc, ''/r/vendor/a2ui/renderers/lit/'' @ nfd] \<and>
   sortFiles posixHost [''/r/vendor/a2ui/renderers/lit/'' @ nfd, ''/r/vendor/a2ui/renderers/lit/'' @ nfc]
     = [''/r/vendor/a2ui/renderers/lit/'' @ nfd, ''/r/vendor/a2ui/renderers/lit/'' @ nfc]"
  by (simp add: example_simps)

text \<open>C7 (as amended). Among File Sets whose paths and file contents hold no zero byte,
  the bytes fed to the hash determine the list of (normalized relative path, contents)
  pairs: two runs that feed the same bytes hashed the same pairs in the same order.\<close>

theorem pre_hash_encoding_injective:
  assumes "hashLoop h fs files [] = Inr bytes"
    and "hashLoop h' fs' files' [] = Inr bytes"
    and "\<forall>p\<in>set files. CHR 0x00 \<notin> set (key h p) \<and> CHR 0x00 \<notin> set (contents fs p)"
    and "\<forall>p\<in>set files'. CHR 0x00 \<notin> set (key h' p) \<and> CHR 0x00 \<notin> set (contents fs' p)"
  shows "map (\<lambda>p. (key h p, contents fs p)) files = map (\<lambda>p. (key h' p, contents fs' p)) files'"
proof (rule encoding_injective)
  let ?enc = "\<lambda>(k, b). k @ [CHR 0x00] @ b @ [CHR 0x00]"
  show "\<forall>(k, b)\<in>set (map (\<lambda>p. (key h p, contents fs p)) files). CHR 0x00 \<notin> set k \<and> CHR 0x00 \<notin> set b"
    using assms(3) by auto
  show "\<forall>(k, b)\<in>set (map (\<lambda>p. (key h' p, contents fs' p)) files'). CHR 0x00 \<notin> set k \<and> CHR 0x00 \<notin> set b"
    using assms(4) by auto
  have a: "bytes = concat (map (entry h fs) files)"
    using hashLoop_regular [OF hashLoop_Inr_regular [OF assms(1)], of h "[]"] assms(1) by simp
  have b: "bytes = concat (map (entry h' fs') files')"
    using hashLoop_regular [OF hashLoop_Inr_regular [OF assms(2)], of h' "[]"] assms(2) by simp
  have e: "map ?enc (map (\<lambda>p. (key h p, contents fs p)) files) = map (entry h fs) files" for h fs files
    by (simp add: entry_def)
  show "concat (map ?enc (map (\<lambda>p. (key h p, contents fs p)) files))
      = concat (map ?enc (map (\<lambda>p. (key h' p, contents fs' p)) files'))"
    unfolding e using a b by simp
qed

theorem pre_hash_encoding_injective_witness:
  "map (\<lambda>p. (key posixHost p, contents fsPosixAB p))
     [''/r/package.json'', ''/r/pnpm-lock.yaml'',
      ''/r/vendor/a2ui/renderers/lit/a'', ''/r/vendor/a2ui/renderers/lit/b'']
   = map (\<lambda>p. (key winHost p, contents fsWinBA p))
     [''C:'' @ [CHR 0x5C] @ ''r'' @ [CHR 0x5C] @ ''package.json'',
      ''C:'' @ [CHR 0x5C] @ ''r'' @ [CHR 0x5C] @ ''pnpm-lock.yaml'',
      ''C:'' @ [CHR 0x5C] @ ''r'' @ [CHR 0x5C] @ ''vendor'' @ [CHR 0x5C] @ ''a2ui'' @ [CHR 0x5C]
         @ ''renderers'' @ [CHR 0x5C] @ ''lit'' @ [CHR 0x5C] @ ''a'',
      ''C:'' @ [CHR 0x5C] @ ''r'' @ [CHR 0x5C] @ ''vendor'' @ [CHR 0x5C] @ ''a2ui'' @ [CHR 0x5C]
         @ ''renderers'' @ [CHR 0x5C] @ ''lit'' @ [CHR 0x5C] @ ''b'']"
proof (rule pre_hash_encoding_injective [where bytes = msgAB])
  show "hashLoop posixHost fsPosixAB
          [''/r/package.json'', ''/r/pnpm-lock.yaml'',
           ''/r/vendor/a2ui/renderers/lit/a'', ''/r/vendor/a2ui/renderers/lit/b''] [] = Inr msgAB"
    by (simp add: example_simps)
  show "hashLoop winHost fsWinBA
     [''C:'' @ [CHR 0x5C] @ ''r'' @ [CHR 0x5C] @ ''package.json'',
      ''C:'' @ [CHR 0x5C] @ ''r'' @ [CHR 0x5C] @ ''pnpm-lock.yaml'',
      ''C:'' @ [CHR 0x5C] @ ''r'' @ [CHR 0x5C] @ ''vendor'' @ [CHR 0x5C] @ ''a2ui'' @ [CHR 0x5C]
         @ ''renderers'' @ [CHR 0x5C] @ ''lit'' @ [CHR 0x5C] @ ''a'',
      ''C:'' @ [CHR 0x5C] @ ''r'' @ [CHR 0x5C] @ ''vendor'' @ [CHR 0x5C] @ ''a2ui'' @ [CHR 0x5C]
         @ ''renderers'' @ [CHR 0x5C] @ ''lit'' @ [CHR 0x5C] @ ''b''] [] = Inr msgAB"
    by (simp add: example_simps)
qed (simp_all add: example_simps)

text \<open>A file may hold zero bytes, and then the encoding is not injective: one file
  whose contents spell out the rest of the encoding of two files feeds the same bytes
  as the two files do.\<close>

theorem pre_hash_encoding_counterexample:
  "walk_inputs (sep posixHost) fsPosixA (inputPaths posixHost) []
     = Inr [''/r/package.json'', ''/r/pnpm-lock.yaml'', ''/r/vendor/a2ui/renderers/lit/a''] \<and>
   walk_inputs (sep posixHost) fsPosixAB (inputPaths posixHost) []
     = Inr [''/r/package.json'', ''/r/pnpm-lock.yaml'',
            ''/r/vendor/a2ui/renderers/lit/a'', ''/r/vendor/a2ui/renderers/lit/b''] \<and>
   hashLoop posixHost fsPosixA
     (sortFiles posixHost [''/r/package.json'', ''/r/pnpm-lock.yaml'', ''/r/vendor/a2ui/renderers/lit/a'']) []
     = Inr msgAB \<and>
   hashLoop posixHost fsPosixAB
     (sortFiles posixHost [''/r/package.json'', ''/r/pnpm-lock.yaml'',
            ''/r/vendor/a2ui/renderers/lit/a'', ''/r/vendor/a2ui/renderers/lit/b'']) []
     = Inr msgAB \<and>
   computeHash posixHost fsPosixA = computeHash posixHost fsPosixAB"
  by (simp add: example_simps computeHash_def hashFiles_def)

subsection \<open>The cache record\<close>



subsection \<open>The run\<close>

text \<open>C5. When the renderer directory or the application directory is absent, the run
  ends with exit code 0: it prints one line and changes nothing else, so no external
  command is started and no file (cache record or bundle) is written. This holds
  whatever the other inputs are, also where computing the fingerprint would fail.\<close>

theorem skip_when_sources_missing:
  assumes "\<not> exists (fsys w) (a2uiRendererDir h) \<or> \<not> exists (fsys w) (a2uiAppDir h)"
  shows "run h w = (0, w\<lparr>stdout := stdout w @ [''A2UI sources missing; keeping prebuilt bundle.'']\<rparr>)
       \<and> fsys (snd (run h w)) = fsys w
       \<and> spawned (snd (run h w)) = spawned w
       \<and> stderr (snd (run h w)) = stderr w"
  using assms by (auto simp: run_def main_def console_log_def)

theorem skip_when_sources_missing_witness:
  "run posixHost (emptyWorld (fmap_of_list [(''/r/src/canvas-host/a2ui/a2ui.bundle.js'', File ''bundle'')]))
     = (0, \<lparr>fsys = fmap_of_list [(''/r/src/canvas-host/a2ui/a2ui.bundle.js'', File ''bundle'')],
            spawned = [], stdout = [''A2UI sources missing; keeping prebuilt bundle.''], stderr = []\<rparr>)"
  using skip_when_sources_missing
          [of "emptyWorld (fmap_of_list [(''/r/src/canvas-host/a2ui/a2ui.bundle.js'', File ''bundle'')])" posixHost]
  by (simp add: emptyWorld_def exists_def fmlookup_of_list a2uiRendererDir_def a2uiAppDir_def
        posixHost_def sep_def path_join_all_def path_join_def)

text \<open>C3 (as amended). Let both source roots exist, let the fingerprint be computed, and
  let the cache record be read (it is absent, or its trimmed contents are \<open>previous\<close>).
  When the stored fingerprint equals the current one and the bundle exists, the run
  ends with exit code 0 and starts no command. Otherwise the pipeline is started: the
  first stage is run, and the second right after it exactly when the first exits with
  status 0. So a command is started if and only if the bundle is not up to date.\<close>

theorem rebuild_iff_not_up_to_date:
  assumes "exists (fsys w) (a2uiRendererDir h)" "exists (fsys w) (a2uiAppDir h)"
    and "computeHash h (fsys w) = Inr currentHash"
    and "readCache h (fsys w) = Inr previous"
  shows "(upToDate h (fsys w) previous currentHash \<longrightarrow>
            run h w = (0, w\<lparr>stdout := stdout w @ [''A2UI bundle up to date; skipping.'']\<rparr>))
       \<and> (\<not> upToDate h (fsys w) previous currentHash \<longrightarrow>
            spawned (snd (run h w)) =
              spawned w @ stage h (tscArgs h) #
                (if fst (spawnSync h (command h) (fullArgs h (tscArgs h)) (fsys w)) = Exited (Some 0)
                 then [stage h (rolldownArgs h)] else []))
       \<and> ((spawned (snd (run h w)) \<noteq> spawned w) = (\<not> upToDate h (fsys w) previous currentHash))"
proof -
  note m = main_decided [OF assms]
  show ?thesis
  proof (cases "upToDate h (fsys w) previous currentHash")
    case True
    then show ?thesis using m by (simp add: run_def)
  next
    case False
    then have "spawned (snd (run h w)) = spawned (snd (rebuild h currentHash w))"
      using m by (simp add: run_spawned)
    then show ?thesis using False by (simp add: rebuild_spawned)
  qed
qed

theorem rebuild_iff_not_up_to_date_witness:
  "run posixHost (emptyWorld fsCached)
     = (0, \<lparr>fsys = fsCached, spawned = [], stdout = [''A2UI bundle up to date; skipping.''], stderr = []\<rparr>)
   \<and> spawned (snd (run posixHost (emptyWorld fsPosixAB)))
     = [(''pnpm'', [''-s'', ''exec'', ''tsc'', ''-p'', ''/r/vendor/a2ui/renderers/lit/tsconfig.json'']),
        (''pnpm'', [''-s'', ''exec'', ''rolldown'', ''-c'',
                    ''/r/apps/shared/OpenClawKit/Tools/CanvasA2UI/rolldown.config.mjs''])]"
proof
  have t: "trim (''bbcab3dcbf29fc78d3b08fbe11fc9244ff1ed40858c60b9641f1f9d8d79df9e3'' @ [CHR 0x0A])
         = ''bbcab3dcbf29fc78d3b08fbe11fc9244ff1ed40858c60b9641f1f9d8d79df9e3''"
    by (rule trim_newline) (simp add: whitespace_free_def whitespace_def)
  have c: "readCache posixHost fsCached = Inr (Some ''bbcab3dcbf29fc78d3b08fbe11fc9244ff1ed40858c60b9641f1f9d8d79df9e3'')"
    using t by (simp add: readCache_def readFile_utf8_def example_simps2)
  show "run posixHost (emptyWorld fsCached)
     = (0, \<lparr>fsys = fsCached, spawned = [], stdout = [''A2UI bundle up to date; skipping.''], stderr = []\<rparr>)"
    using rebuild_iff_not_up_to_date [of "emptyWorld fsCached" posixHost
            "''bbcab3dcbf29fc78d3b08fbe11fc9244ff1ed40858c60b9641f1f9d8d79df9e3''"
            "Some ''bbcab3dcbf29fc78d3b08fbe11fc9244ff1ed40858c60b9641f1f9d8d79df9e3''"]
          c computeHash_fsCached sha256_hex_msgAB
    by (simp add: emptyWorld_def upToDate_def) (simp add: example_simps2)
next
  have c: "readCache posixHost fsPosixAB = Inr None"
    by (simp add: readCache_def example_simps)
  show "spawned (snd (run posixHost (emptyWorld fsPosixAB)))
     = [(''pnpm'', [''-s'', ''exec'', ''tsc'', ''-p'', ''/r/vendor/a2ui/renderers/lit/tsconfig.json'']),
        (''pnpm'', [''-s'', ''exec'', ''rolldown'', ''-c'',
                    ''/r/apps/shared/OpenClawKit/Tools/CanvasA2UI/rolldown.config.mjs''])]"
    using rebuild_iff_not_up_to_date [of "emptyWorld fsPosixAB" posixHost "sha256_hex msgAB" None]
          c computeHash_fsPosixAB
    by (simp add: emptyWorld_def upToDate_def)
       (simp add: example_simps stage_def command_def fullArgs_def isProbablyPnpmExecPath_def
          tscArgs_def rolldownArgs_def)
qed

text \<open>The second stage is not started when the first fails: here the cache record is
  absent and the first stage exits with status 1.\<close>

theorem second_stage_not_started_counterexample:
  "exists fsPosixAB (a2uiRendererDir (failingHost ''tsc''))
   \<and> exists fsPosixAB (a2uiAppDir (failingHost ''tsc''))
   \<and> computeHash (failingHost ''tsc'') fsPosixAB
       = Inr ''bbcab3dcbf29fc78d3b08fbe11fc9244ff1ed40858c60b9641f1f9d8d79df9e3''
   \<and> readCache (failingHost ''tsc'') fsPosixAB = Inr None
   \<and> spawned (snd (run (failingHost ''tsc'') (emptyWorld fsPosixAB)))
       = [(''pnpm'', [''-s'', ''exec'', ''tsc'', ''-p'', ''/r/vendor/a2ui/renderers/lit/tsconfig.json''])]"
proof -
  have c: "readCache (failingHost ''tsc'') fsPosixAB = Inr None"
    by (simp add: readCache_def example_simps2)
  have h: "computeHash (failingHost ''tsc'') fsPosixAB = Inr (sha256_hex msgAB)"
    by (simp add: failingHost_def computeHash_spawnSync_update computeHash_fsPosixAB)
  have "spawned (snd (run (failingHost ''tsc'') (emptyWorld fsPosixAB)))
       = [(''pnpm'', [''-s'', ''exec'', ''tsc'', ''-p'', ''/r/vendor/a2ui/renderers/lit/tsconfig.json''])]"
    using c h
    by (simp add: run_def main_def rebuild_def runPnpm_def emptyWorld_def console_error_def
          example_simps2 command_def fullArgs_def isProbablyPnpmExecPath_def tscArgs_def)
  moreover have "exists fsPosixAB (a2uiRendererDir (failingHost ''tsc''))
      \<and> exists fsPosixAB (a2uiAppDir (failingHost ''tsc''))"
    by (simp add: example_simps2)
  ultimately show ?thesis
    using c h sha256_hex_msgAB by simp
qed

text \<open>C4 (as amended). When the pipeline is reached and a stage fails (the runner cannot
  be started, or the command does not exit with status 0), the run ends there with exit
  code 1: no later stage is started, the file system is as the failed command left it
  (the script writes no cache record), and three lines are printed, the last being the
  error. For a command that exits with another status the error names the arguments of
  the stage; for a runner that could not be started it is the error of the spawn.\<close>

theorem failed_stage_aborts:
  assumes "exists (fsys w) (a2uiRendererDir h)" "exists (fsys w) (a2uiAppDir h)"
    and "computeHash h (fsys w) = Inr currentHash"
    and "readCache h (fsys w) = Inr previous"
    and "\<not> upToDate h (fsys w) previous currentHash"
    and "r1 = spawnSync h (command h) (fullArgs h (tscArgs h)) (fsys w)"
    and "r2 = spawnSync h (command h) (fullArgs h (rolldownArgs h)) (snd r1)"
  shows "(fst r1 \<noteq> Exited (Some 0) \<longrightarrow>
            run h w = (1, w\<lparr>fsys := snd r1,
                            spawned := spawned w @ [stage h (tscArgs h)],
                            stderr := stderr w @ diagnostic (stage_error (tscArgs h) (fst r1))\<rparr>))
       \<and> (fst r1 = Exited (Some 0) \<and> fst r2 \<noteq> Exited (Some 0) \<longrightarrow>
            run h w = (1, w\<lparr>fsys := snd r2,
                            spawned := spawned w @ [stage h (tscArgs h), stage h (rolldownArgs h)],
                            stderr := stderr w @ diagnostic (stage_error (rolldownArgs h) (fst r2))\<rparr>))
       \<and> (\<forall>args status. error_string (stage_error args (Exited status))
              = ''Error: Command failed: pnpm '' @ join '' '' args)
       \<and> (\<forall>args err. error_string (stage_error args (SpawnFailed err)) = err)"
proof -
  have m: "main h w = rebuild h currentHash w"
    using main_decided [OF assms(1-4)] assms(5) by simp
  have 1: "run h w = (1, w\<lparr>fsys := snd r1,
                            spawned := spawned w @ [stage h (tscArgs h)],
                            stderr := stderr w @ diagnostic (stage_error (tscArgs h) (fst r1))\<rparr>)"
    if "fst r1 \<noteq> Exited (Some 0)"
    using run_Inl [of h w] m rebuild_stage1_fails [of h w currentHash] that assms(6) by simp
  have 2: "run h w = (1, w\<lparr>fsys := snd r2,
                            spawned := spawned w @ [stage h (tscArgs h), stage h (rolldownArgs h)],
                            stderr := stderr w @ diagnostic (stage_error (rolldownArgs h) (fst r2))\<rparr>)"
    if "fst r1 = Exited (Some 0)" "fst r2 \<noteq> Exited (Some 0)"
    using run_Inl [of h w] m rebuild_stage2_fails [of h w currentHash] that assms(6,7) by simp
  show ?thesis
    using 1 2 by (simp add: stage_error_def)
qed

theorem failed_stage_aborts_witness:
  "run (failingHost ''rolldown'') (emptyWorld fsPosixAB)
     = (1, \<lparr>fsys = fsPosixAB,
            spawned =
              [(''pnpm'', [''-s'', ''exec'', ''tsc'', ''-p'', ''/r/vendor/a2ui/renderers/lit/tsconfig.json'']),
               (''pnpm'', [''-s'', ''exec'', ''rolldown'', ''-c'',
                           ''/r/apps/shared/OpenClawKit/Tools/CanvasA2UI/rolldown.config.mjs''])],
            stdout = [],
            stderr =
              [''A2UI bundling failed. Re-run with: pnpm canvas:a2ui:bundle'',
               ''If this persists, verify pnpm deps and try again.'',
               ''Error: Command failed: pnpm -s exec rolldown -c /r/apps/shared/OpenClawKit/Tools/CanvasA2UI/rolldown.config.mjs'']\<rparr>)"
proof -
  have c: "readCache (failingHost ''rolldown'') fsPosixAB = Inr None"
    by (simp add: readCache_def example_simps2)
  have h: "computeHash (failingHost ''rolldown'') fsPosixAB = Inr (sha256_hex msgAB)"
    by (simp add: failingHost_def computeHash_spawnSync_update computeHash_fsPosixAB)
  show ?thesis
    using failed_stage_aborts [of "emptyWorld fsPosixAB" "failingHost ''rolldown''" "sha256_hex msgAB" None
            "(Exited (Some 0), fsPosixAB)" "(Exited (Some 1), fsPosixAB)"] c h
    by (simp add: emptyWorld_def upToDate_def)
       (simp add: example_simps2 stage_def command_def fullArgs_def isProbablyPnpmExecPath_def
          tscArgs_def rolldownArgs_def diagnostic_def stage_error_def)
qed

text \<open>The diagnostic of a spawn failure does not name the arguments of the stage.\<close>

theorem spawn_failure_diagnostic_counterexample:
  "run noPnpmHost (emptyWorld fsPosixAB)
     = (1, \<lparr>fsys = fsPosixAB,
            spawned =
              [(''pnpm'', [''-s'', ''exec'', ''tsc'', ''-p'', ''/r/vendor/a2ui/renderers/lit/tsconfig.json''])],
            stdout = [],
            stderr =
              [''A2UI bundling failed. Re-run with: pnpm canvas:a2ui:bundle'',
               ''If this persists, verify pnpm deps and try again.'',
               ''Error: spawnSync pnpm ENOENT'']\<rparr>)
   \<and> \<not> str_includes ''tsc'' ''A2UI bundling failed. Re-run with: pnpm canvas:a2ui:bundle''
   \<and> \<not> str_includes ''tsc'' ''If this persists, verify pnpm deps and try again.''
   \<and> \<not> str_includes ''tsc'' ''Error: spawnSync pnpm ENOENT''"
proof -
  have c: "readCache noPnpmHost fsPosixAB = Inr None"
    by (simp add: readCache_def example_simps2)
  have h: "computeHash noPnpmHost fsPosixAB = Inr (sha256_hex msgAB)"
    by (simp add: noPnpmHost_def computeHash_spawnSync_update computeHash_fsPosixAB)
  have "run noPnpmHost (emptyWorld fsPosixAB)
     = (1, \<lparr>fsys = fsPosixAB,
            spawned =
              [(''pnpm'', [''-s'', ''exec'', ''tsc'', ''-p'', ''/r/vendor/a2ui/renderers/lit/tsconfig.json''])],
            stdout = [],
            stderr =
              [''A2UI bundling failed. Re-run with: pnpm canvas:a2ui:bundle'',
               ''If this persists, verify pnpm deps and try again.'',
               ''Error: spawnSync pnpm ENOENT'']\<rparr>)"
    using c h
    by (simp add: run_def main_def rebuild_def runPnpm_def emptyWorld_def console_error_def
          example_simps2 command_def fullArgs_def isProbablyPnpmExecPath_def tscArgs_def)
  then show ?thesis by simp
qed

text \<open>C10. Only the two source directories are probed. When both exist and the manifest
  or the lockfile is missing, the enumeration fails at a \<^verbatim>\<open>stat\<close>: the run ends with
  exit code 1 and the three lines of the diagnostic, having started no command and
  written nothing. The path of the error is the manifest when it is missing, and the
  lockfile when the manifest is a regular file.\<close>

theorem missing_manifest_fails:
  assumes "exists (fsys w) (a2uiRendererDir h)" "exists (fsys w) (a2uiAppDir h)"
    and "\<not> exists (fsys w) (path_join (sep h) (repoRoot h) ''package.json'')
       \<or> \<not> exists (fsys w) (path_join (sep h) (repoRoot h) ''pnpm-lock.yaml'')"
  shows "\<exists>p. main h w = (Inl (ENOENT ''stat'' p), w)
           \<and> run h w = (1, w\<lparr>stderr := stderr w @ diagnostic (ENOENT ''stat'' p)\<rparr>)
           \<and> (\<not> exists (fsys w) (path_join (sep h) (repoRoot h) ''package.json'')
                \<longrightarrow> p = path_join (sep h) (repoRoot h) ''package.json'')
           \<and> (regular (fsys w) (path_join (sep h) (repoRoot h) ''package.json'')
                \<longrightarrow> p = path_join (sep h) (repoRoot h) ''pnpm-lock.yaml'')"
proof -
  let ?pkg = "path_join (sep h) (repoRoot h) ''package.json''"
  let ?lock = "path_join (sep h) (repoRoot h) ''pnpm-lock.yaml''"
  have fail: "main h w = (Inl (ENOENT ''stat'' q), w)
           \<and> run h w = (1, w\<lparr>stderr := stderr w @ diagnostic (ENOENT ''stat'' q)\<rparr>)"
    if "walk_inputs (sep h) (fsys w) (inputPaths h) [] = Inl (ENOENT ''stat'' q)" for q
  proof -
    have "main h w = (Inl (ENOENT ''stat'' q), w)"
      using that assms(1,2) by (simp add: main_def computeHash_def)
    then show ?thesis using run_Inl by simp
  qed
  consider (nopkg) "\<not> exists (fsys w) ?pkg"
    | (regularpkg) "regular (fsys w) ?pkg" "\<not> exists (fsys w) ?lock"
    | (otherpkg) "exists (fsys w) ?pkg" "\<not> regular (fsys w) ?pkg" "\<not> exists (fsys w) ?lock"
    using assms(3) by blast
  then show ?thesis
  proof cases
    case nopkg
    then have "walk_inputs (sep h) (fsys w) (inputPaths h) [] = Inl (ENOENT ''stat'' ?pkg)"
      by (simp add: inputPaths_def walk.simps exists_def split: option.splits)
    then show ?thesis using fail nopkg by (auto simp: regular_def exists_def split: option.splits)
  next
    case regularpkg
    then have "walk_inputs (sep h) (fsys w) (inputPaths h) [] = Inl (ENOENT ''stat'' ?lock)"
      by (auto simp: inputPaths_def walk.simps exists_def regular_def split: option.splits node.splits)
    then show ?thesis using fail regularpkg by (auto simp: regular_def exists_def split: option.splits)
  next
    case otherpkg
    then have "?lock \<in> set (inputPaths h)" "fmlookup (fsys w) ?lock = None"
      by (auto simp: inputPaths_def exists_def split: option.splits)
    then obtain q where "walk_inputs (sep h) (fsys w) (inputPaths h) [] = Inl (ENOENT ''stat'' q)"
      using walk_inputs_missing by blast
    then show ?thesis using fail otherpkg by blast
  qed
qed


theorem missing_manifest_fails_witness:
  "run posixHost (emptyWorld (fmdrop ''/r/package.json'' fsPosixAB))
     = (1, \<lparr>fsys = fmdrop ''/r/package.json'' fsPosixAB, spawned = [], stdout = [],
            stderr =
              [''A2UI bundling failed. Re-run with: pnpm canvas:a2ui:bundle'',
               ''If this persists, verify pnpm deps and try again.'',
               ''Error: ENOENT: no such file or directory, stat '' @ [CHR 0x27] @ ''/r/package.json'' @ [CHR 0x27]]\<rparr>)"
  using missing_manifest_fails [of "emptyWorld (fmdrop ''/r/package.json'' fsPosixAB)" posixHost]
  by (simp add: emptyWorld_def example_simps diagnostic_def)

subsection \<open>Further properties\<close>

text \<open>X1. A run that reaches the pipeline, whose two stages exit with status 0 and whose
  cache record can be written, ends with exit code 0 having started the two stages in
  order, and the cache record then reads back as the current fingerprint.\<close>

theorem rebuild_success:
  assumes "exists (fsys w) (a2uiRendererDir h)" "exists (fsys w) (a2uiAppDir h)"
    and "computeHash h (fsys w) = Inr currentHash"
    and "readCache h (fsys w) = Inr previous"
    and "\<not> upToDate h (fsys w) previous currentHash"
    and "r1 = spawnSync h (command h) (fullArgs h (tscArgs h)) (fsys w)"
    and "r2 = spawnSync h (command h) (fullArgs h (rolldownArgs h)) (snd r1)"
    and "fst r1 = Exited (Some 0)" "fst r2 = Exited (Some 0)"
    and "writeCache h (snd r2) currentHash = Inr fs'"
  shows "run h w = (0, w\<lparr>fsys := fs', spawned := spawned w @ [stage h (tscArgs h), stage h (rolldownArgs h)]\<rparr>)
       \<and> readCache h fs' = Inr (Some currentHash)"
proof -
  have m: "main h w = rebuild h currentHash w"
    using main_decided [OF assms(1-4)] assms(5) by simp
  have "rebuild h currentHash w
      = (Inr (), w\<lparr>fsys := fs', spawned := spawned w @ [stage h (tscArgs h), stage h (rolldownArgs h)]\<rparr>)"
    using assms(6-10) by (simp add: rebuild_def runPnpm_result)
  then have "run h w = (0, w\<lparr>fsys := fs', spawned := spawned w @ [stage h (tscArgs h), stage h (rolldownArgs h)]\<rparr>)"
    using m run_Inr by simp
  moreover have "whitespace_free currentHash"
    using computeHash_hex [OF assms(3)] hex_whitespace_free by blast
  then have "readCache h fs' = Inr (Some currentHash)"
    using readCache_after_write assms(10) by blast
  ultimately show ?thesis by simp
qed

theorem rebuild_success_witness:
  "\<exists>fs'. run posixHost (emptyWorld fsPosixAB)
            = (0, \<lparr>fsys = fs',
                   spawned =
                     [(''pnpm'', [''-s'', ''exec'', ''tsc'', ''-p'', ''/r/vendor/a2ui/renderers/lit/tsconfig.json'']),
                      (''pnpm'', [''-s'', ''exec'', ''rolldown'', ''-c'',
                                  ''/r/apps/shared/OpenClawKit/Tools/CanvasA2UI/rolldown.config.mjs''])],
                   stdout = [], stderr = []\<rparr>)
        \<and> readCache posixHost fs' = Inr (Some ''bbcab3dcbf29fc78d3b08fbe11fc9244ff1ed40858c60b9641f1f9d8d79df9e3'')"
proof -
  let ?d = "''bbcab3dcbf29fc78d3b08fbe11fc9244ff1ed40858c60b9641f1f9d8d79df9e3''"
  have c: "readCache posixHost fsPosixAB = Inr None"
    by (simp add: readCache_def example_simps)
  have h: "computeHash posixHost fsPosixAB = Inr ?d"
    by (simp add: computeHash_fsPosixAB sha256_hex_msgAB)
  have "\<exists>fs'. writeCache posixHost fsPosixAB ?d = Inr fs'"
    by (simp add: writeCache_def writeFile_def dirname_def basename_def example_simps)
  then obtain fs' where e: "writeCache posixHost fsPosixAB ?d = Inr fs'"
    by blast
  have "run posixHost (emptyWorld fsPosixAB)
          = (0, emptyWorld fsPosixAB\<lparr>fsys := fs',
                  spawned := spawned (emptyWorld fsPosixAB)
                     @ [stage posixHost (tscArgs posixHost), stage posixHost (rolldownArgs posixHost)]\<rparr>)
        \<and> readCache posixHost fs' = Inr (Some ?d)"
    by (rule rebuild_success [where previous = None and ?r1.0 = "(Exited (Some 0), fsPosixAB)"
             and ?r2.0 = "(Exited (Some 0), fsPosixAB)"])
       (use c h e in \<open>simp_all add: emptyWorld_def upToDate_def posixHost_def exists_def
          a2uiRendererDir_def a2uiAppDir_def sep_def path_join_all_def path_join_def
          fsPosixAB_def repoOf_def lit_def fmlookup_of_list\<close>)
  then show ?thesis
    by (simp add: emptyWorld_def example_simps stage_def command_def fullArgs_def
          isProbablyPnpmExecPath_def tscArgs_def rolldownArgs_def)
qed

text \<open>X2. Whenever the enumeration succeeds, the fingerprint is the SHA-256 digest of the
  encoding of the enumerated files in sorted order, each under its relative path with
  \<^verbatim>\<open>/\<close> for the platform separator: every enumerated path is a file that can be
  read.\<close>

theorem computeHash_digest:
  assumes "walk_inputs (sep h) fs (inputPaths h) [] = Inr files"
  shows "computeHash h fs =
           Inr (sha256_hex (concat (map
             (\<lambda>p. map (\<lambda>c. if c = sep h then CHR ''/'' else c) (relative (sep h) (repoRoot h) p)
                   @ [CHR 0x00] @ contents fs p @ [CHR 0x00])
             (sortFiles h files))))"
proof -
  have "\<forall>p\<in>set (sortFiles h files). regular fs p"
    using walk_inputs_result [OF assms] by (auto simp: sortFiles_def set_sort_cmp)
  then have "hashLoop h fs (sortFiles h files) [] = Inr (concat (map (entry h fs) (sortFiles h files)))"
    using hashLoop_regular [of "sortFiles h files" fs h "[]"] by simp
  then show ?thesis
    using assms by (simp add: computeHash_def hashFiles_def entry_replace)
qed

theorem computeHash_digest_witness:
  "computeHash posixHost fsPosixAB = Inr ''bbcab3dcbf29fc78d3b08fbe11fc9244ff1ed40858c60b9641f1f9d8d79df9e3''
   \<and> computeHash winHost fsWinBA = Inr ''bbcab3dcbf29fc78d3b08fbe11fc9244ff1ed40858c60b9641f1f9d8d79df9e3''"
proof -
  have "computeHash posixHost fsPosixAB = Inr (sha256_hex msgAB)"
    using computeHash_digest [OF walk_inputs_fsPosixAB] by (simp add: example_simps)
  moreover have "computeHash winHost fsWinBA = Inr (sha256_hex msgAB)"
    using computeHash_digest [OF walk_inputs_fsWinBA] by (simp add: example_simps)
  ultimately show ?thesis by (simp add: sha256_hex_msgAB)
qed

text \<open>X3. Every enumerated path is a file (not a directory) and extends one of the
  input roots.\<close>

theorem enumerated_files:
  assumes "walk_inputs (sep h) fs (inputPaths h) [] = Inr files"
  shows "\<forall>q\<in>set files. regular fs q \<and> (\<exists>input\<in>set (inputPaths h). prefix input q)"
  using walk_inputs_result [OF assms] by auto

theorem enumerated_files_witness:
  "regular fsPosixAB ''/r/vendor/a2ui/renderers/lit/b''
   \<and> (\<exists>input\<in>set (inputPaths posixHost). prefix input ''/r/vendor/a2ui/renderers/lit/b'')"
  using enumerated_files [OF walk_inputs_fsPosixAB] by simp

text \<open>X4. A file at \<^verbatim>\<open>repoRoot/n1/.../nk\<close>, where the names are not empty and hold no
  separator of the platform, is hashed under the key \<^verbatim>\<open>n1/.../nk\<close> on every
  platform.\<close>

theorem key_of_path:
  assumes "\<forall>n\<in>set names. n \<noteq> [] \<and> sep h \<notin> set n"
  shows "key h (path_join_all (sep h) (repoRoot h) names) = join ''/'' names"
proof -
  let ?s = "sep h"
  have seg: "segments ?s (path_join_all ?s (repoRoot h) names) = segments ?s (repoRoot h) @ names"
  proof -
    have "filter (\<lambda>n. n \<noteq> []) names = names"
      using assms by (simp add: filter_id_conv)
    then show ?thesis
      using assms by (simp add: segments_def split_path_join_all)
  qed
  have rel: "relative ?s (repoRoot h) (path_join_all ?s (repoRoot h) names) = join [?s] names"
    by (simp add: relative_def seg longest_common_prefix_append Let_def)
  show ?thesis
  proof (cases "names = []")
    case True
    then show ?thesis unfolding key_def rel normalize_def by simp
  next
    case False
    then show ?thesis
      unfolding key_def rel normalize_def using assms by (simp add: split_join_names)
  qed
qed

theorem key_of_path_witness:
  "key winHost (''C:'' @ [CHR 0x5C] @ ''r'' @ [CHR 0x5C] @ ''vendor'' @ [CHR 0x5C] @ ''a2ui'') = ''vendor/a2ui''
   \<and> key posixHost ''/r/vendor/a2ui'' = ''vendor/a2ui''"
  using key_of_path [of "[''vendor'', ''a2ui'']" winHost] key_of_path [of "[''vendor'', ''a2ui'']" posixHost]
  by (simp add: winHost_def posixHost_def sep_def path_join_all_def path_join_def)

text \<open>X5. \<^verbatim>\<open>normalize\<close> replaces every separator of the platform by a slash; where the
  separator is the slash it changes nothing.\<close>

theorem normalize_replaces_separator:
  "normalize h p = map (\<lambda>c. if c = sep h then CHR ''/'' else c) p
   \<and> (platform h \<noteq> ''win32'' \<longrightarrow> normalize h p = p)"
proof -
  have "map (\<lambda>c. if c = CHR ''/'' then CHR ''/'' else c) p = p"
    by (induction p) auto
  then show ?thesis
    by (simp add: normalize_def normalize_replace sep_def)
qed

theorem normalize_replaces_separator_witness:
  "normalize winHost (''a'' @ [CHR 0x5C] @ ''b/c'') = ''a/b/c'' \<and> normalize posixHost ''a/b'' = ''a/b''"
  using normalize_replaces_separator [of winHost "''a'' @ [CHR 0x5C] @ ''b/c''"]
        normalize_replaces_separator [of posixHost "''a/b''"]
  by (simp add: winHost_def posixHost_def sep_def)

end
